theory Spec2Isabelle
  imports Main "HOL-Library.Multiset" "HOL-Library.FSet"
begin

section \<open>Battleship: targeting strategies, fleet and placement\<close>

text \<open>
  A shallow embedding of \<^verbatim>\<open>battleship.py\<close>. Python integers are \<open>int\<close>, a
  coordinate is a pair of integers, an exception is a value of type \<open>error\<close> on the
  left of a sum, and every method that mutates its object returns the new object.
  The process-wide random source is made explicit: each call receives the raw draws
  it consumes.
\<close>

subsection \<open>Coordinates, ranges and the random source\<close>

type_synonym coord = "int \<times> int"

datatype error = IndexError | KeyError

text \<open>\<^verbatim>\<open>range(n)\<close>: the integers \<open>0, ..., n - 1\<close>, empty when \<open>n \<le> 0\<close>.\<close>

definition py_range :: "int \<Rightarrow> int list" where
  "py_range n = [0..n - 1]"

text \<open>The test \<^verbatim>\<open>0 <= nr < self.grid_size and 0 <= nc < self.grid_size\<close>.\<close>

definition in_bounds :: "int \<Rightarrow> coord \<Rightarrow> bool" where
  "in_bounds gs p = (0 \<le> fst p \<and> fst p < gs \<and> 0 \<le> snd p \<and> snd p < gs)"

text \<open>
  \<^verbatim>\<open>random.choice(seq)\<close> raises \<^verbatim>\<open>IndexError\<close> on an empty sequence and otherwise
  returns \<^verbatim>\<open>seq[randbelow(len(seq))]\<close>; the raw draw \<open>d\<close> is reduced modulo the length.
\<close>

definition random_choice :: "nat \<Rightarrow> 'a list \<Rightarrow> error + 'a" where
  "random_choice d xs = (if xs = [] then Inl IndexError else Inr (xs ! (d mod length xs)))"

text \<open>
  \<^verbatim>\<open>random.shuffle(x)\<close> is the library's exchange loop
  \<^verbatim>\<open>for i in reversed(range(1, len(x))): j = randbelow(i + 1); x[i], x[j] = x[j], x[i]\<close>.
  \<open>shuffle_from i rnd xs\<close> runs it for the indices \<open>i, i - 1, ..., 1\<close>, where
  \<open>rnd 0\<close> is the next raw draw.
\<close>

fun shuffle_from :: "nat \<Rightarrow> (nat \<Rightarrow> nat) \<Rightarrow> 'a list \<Rightarrow> 'a list" where
  "shuffle_from 0 rnd xs = xs"
| "shuffle_from (Suc k) rnd xs =
     (let i = Suc k; j = rnd 0 mod (i + 1)
      in shuffle_from k (\<lambda>n. rnd (Suc n)) (xs[i := xs ! j, j := xs ! i]))"

definition shuffle :: "(nat \<Rightarrow> nat) \<Rightarrow> 'a list \<Rightarrow> 'a list" where
  "shuffle rnd xs = shuffle_from (length xs - 1) rnd xs"

text \<open>
  The comprehension
  \<^verbatim>\<open>[(r, c) for r in range(gs) for c in range(gs) if (r, c) not in shots]\<close>
  and its checkerboard variant with the extra test \<^verbatim>\<open>(r + c) % 2 == 0\<close>.
\<close>

definition all_choices :: "int \<Rightarrow> coord set \<Rightarrow> coord list" where
  "all_choices gs sh =
     filter (\<lambda>p. p \<notin> sh) (List.product (py_range gs) (py_range gs))"

definition checker_choices :: "int \<Rightarrow> coord set \<Rightarrow> coord list" where
  "checker_choices gs sh =
     filter (\<lambda>p. (fst p + snd p) mod 2 = 0 \<and> p \<notin> sh)
       (List.product (py_range gs) (py_range gs))"

subsection \<open>RandomShooter\<close>

record rs_state =
  rs_grid_size :: int
  rs_shots :: "coord set"

definition rs_init :: "int \<Rightarrow> rs_state" where
  "rs_init gs = \<lparr>rs_grid_size = gs, rs_shots = {}\<rparr>"

definition rs_choose_target :: "rs_state \<Rightarrow> nat \<Rightarrow> error + (coord \<times> rs_state)" where
  "rs_choose_target s d =
     (case random_choice d (all_choices (rs_grid_size s) (rs_shots s)) of
        Inl e \<Rightarrow> Inl e
      | Inr coord \<Rightarrow> Inr (coord, s\<lparr>rs_shots := insert coord (rs_shots s)\<rparr>))"

subsection \<open>SeekAndDestroy\<close>

record sd_state =
  sd_grid_size :: int
  sd_targets :: "coord list"
  sd_shots :: "coord set"

definition sd_init :: "int \<Rightarrow> sd_state" where
  "sd_init gs = \<lparr>sd_grid_size = gs, sd_targets = [], sd_shots = {}\<rparr>"

text \<open>
  The \<^verbatim>\<open>while self.targets\<close> loop pops from the end of the list; when the list
  is empty the random fallback runs.
\<close>

function sd_choose_target :: "sd_state \<Rightarrow> nat \<Rightarrow> error + (coord \<times> sd_state)" where
  "sd_choose_target s d =
     (if sd_targets s \<noteq> [] then
        (let coord = last (sd_targets s);
             s1 = s\<lparr>sd_targets := butlast (sd_targets s)\<rparr>
         in if coord \<notin> sd_shots s1
            then Inr (coord, s1\<lparr>sd_shots := insert coord (sd_shots s1)\<rparr>)
            else sd_choose_target s1 d)
      else
        (case random_choice d (all_choices (sd_grid_size s) (sd_shots s)) of
           Inl e \<Rightarrow> Inl e
         | Inr coord \<Rightarrow> Inr (coord, s\<lparr>sd_shots := insert coord (sd_shots s)\<rparr>)))"
  by pat_completeness auto
termination
  by (relation "measure (\<lambda>(s, d). length (sd_targets s))") auto

definition sd_process_result :: "sd_state \<Rightarrow> coord \<Rightarrow> bool \<Rightarrow> (nat \<Rightarrow> nat) \<Rightarrow> sd_state" where
  "sd_process_result s coord hit rnd =
     (if hit then
        (let r = fst coord; c = snd coord;
             neighbors = [(r - 1, c), (r + 1, c), (r, c - 1), (r, c + 1)];
             valid = filter (in_bounds (sd_grid_size s)) neighbors
         in s\<lparr>sd_targets := sd_targets s @ shuffle rnd valid\<rparr>)
      else s)"

subsection \<open>StrategicGenius\<close>

record sg_state =
  sg_grid_size :: int
  sg_hunt_mode :: bool
  sg_shots :: "coord set"
  sg_targets :: "coord list"

definition sg_init :: "int \<Rightarrow> sg_state" where
  "sg_init gs = \<lparr>sg_grid_size = gs, sg_hunt_mode = True, sg_shots = {}, sg_targets = []\<rparr>"

text \<open>
  In target mode the loop pops from the front (\<^verbatim>\<open>pop(0)\<close>); when the queue is
  empty the method sets \<^verbatim>\<open>hunt_mode\<close> and calls itself.
\<close>

function sg_choose_target :: "sg_state \<Rightarrow> nat \<Rightarrow> error + (coord \<times> sg_state)" where
  "sg_choose_target s d =
     (if sg_hunt_mode s then
        (let choices = checker_choices (sg_grid_size s) (sg_shots s);
             choices = (if choices = [] then all_choices (sg_grid_size s) (sg_shots s)
                        else choices)
         in case random_choice d choices of
              Inl e \<Rightarrow> Inl e
            | Inr coord \<Rightarrow> Inr (coord, s\<lparr>sg_shots := insert coord (sg_shots s)\<rparr>))
      else if sg_targets s \<noteq> [] then
        (let coord = hd (sg_targets s);
             s1 = s\<lparr>sg_targets := tl (sg_targets s)\<rparr>
         in if coord \<notin> sg_shots s1
            then Inr (coord, s1\<lparr>sg_shots := insert coord (sg_shots s1)\<rparr>)
            else sg_choose_target s1 d)
      else sg_choose_target (s\<lparr>sg_hunt_mode := True\<rparr>) d)"
  by pat_completeness auto
termination
  by (relation "measure (\<lambda>(s, d). if sg_hunt_mode s then 0 else Suc (length (sg_targets s)))")
     auto

text \<open>The \<^verbatim>\<open>for\<close> loop over the four neighbours, in the order of the source.\<close>

fun sg_enqueue :: "sg_state \<Rightarrow> coord list \<Rightarrow> sg_state" where
  "sg_enqueue s [] = s"
| "sg_enqueue s (n # ns) =
     sg_enqueue
       (if in_bounds (sg_grid_size s) n
        then (if n \<notin> sg_shots s then s\<lparr>sg_targets := sg_targets s @ [n]\<rparr> else s)
        else s) ns"

definition sg_process_result :: "sg_state \<Rightarrow> coord \<Rightarrow> bool \<Rightarrow> sg_state" where
  "sg_process_result s coord hit =
     (if hit then
        (let s1 = s\<lparr>sg_hunt_mode := False\<rparr>; r = fst coord; c = snd coord
         in sg_enqueue s1 [(r, c + 1), (r, c - 1), (r + 1, c), (r - 1, c)])
      else s)"

subsection \<open>The common interface\<close>

datatype strategy =
  RandomShooter rs_state
| SeekAndDestroy sd_state
| StrategicGenius sg_state

fun choose_target :: "strategy \<Rightarrow> nat \<Rightarrow> error + (coord \<times> strategy)" where
  "choose_target (RandomShooter s) d = map_sum id (map_prod id RandomShooter) (rs_choose_target s d)"
| "choose_target (SeekAndDestroy s) d = map_sum id (map_prod id SeekAndDestroy) (sd_choose_target s d)"
| "choose_target (StrategicGenius s) d = map_sum id (map_prod id StrategicGenius) (sg_choose_target s d)"

text \<open>\<^verbatim>\<open>RandomShooter\<close> inherits the base class's \<^verbatim>\<open>process_result\<close>, which is \<^verbatim>\<open>pass\<close>.\<close>

fun process_result :: "strategy \<Rightarrow> coord \<Rightarrow> bool \<Rightarrow> (nat \<Rightarrow> nat) \<Rightarrow> strategy" where
  "process_result (RandomShooter s) coord hit rnd = RandomShooter s"
| "process_result (SeekAndDestroy s) coord hit rnd = SeekAndDestroy (sd_process_result s coord hit rnd)"
| "process_result (StrategicGenius s) coord hit rnd = StrategicGenius (sg_process_result s coord hit)"

fun shots :: "strategy \<Rightarrow> coord set" where
  "shots (RandomShooter s) = rs_shots s"
| "shots (SeekAndDestroy s) = sd_shots s"
| "shots (StrategicGenius s) = sg_shots s"

fun grid_size :: "strategy \<Rightarrow> int" where
  "grid_size (RandomShooter s) = rs_grid_size s"
| "grid_size (SeekAndDestroy s) = sd_grid_size s"
| "grid_size (StrategicGenius s) = sg_grid_size s"

text \<open>The follow-up queue of an instance; \<^verbatim>\<open>RandomShooter\<close> has none.\<close>

fun targets :: "strategy \<Rightarrow> coord list" where
  "targets (RandomShooter s) = []"
| "targets (SeekAndDestroy s) = sd_targets s"
| "targets (StrategicGenius s) = sg_targets s"

text \<open>The table \<^verbatim>\<open>strategies\<close> of \<^verbatim>\<open>Game.__init__\<close>, from difficulty to constructor.\<close>

definition strategies :: "string \<Rightarrow> (int \<Rightarrow> strategy) option" where
  "strategies =
     [''easy'' \<mapsto> (\<lambda>gs. RandomShooter (rs_init gs)),
      ''medium'' \<mapsto> (\<lambda>gs. SeekAndDestroy (sd_init gs)),
      ''hard'' \<mapsto> (\<lambda>gs. StrategicGenius (sg_init gs))]"

text \<open>
  A caller's sequence of calls on one instance: \<open>Choose d\<close> is \<^verbatim>\<open>choose_target()\<close>
  with raw draw \<open>d\<close>, \<open>Result coord hit rnd\<close> is \<^verbatim>\<open>process_result(coord, hit)\<close>.
  \<open>run\<close> collects the coordinates returned, in order, and stops at the first
  exception.
\<close>

datatype call = Choose nat | Result coord bool "nat \<Rightarrow> nat"

fun run :: "strategy \<Rightarrow> call list \<Rightarrow> error + (coord list \<times> strategy)" where
  "run s [] = Inr ([], s)"
| "run s (Choose d # cs) =
     (case choose_target s d of
        Inl e \<Rightarrow> Inl e
      | Inr (coord, s1) \<Rightarrow>
          (case run s1 cs of
             Inl e \<Rightarrow> Inl e
           | Inr (out, s2) \<Rightarrow> Inr (coord # out, s2)))"
| "run s (Result coord hit rnd # cs) = run (process_result s coord hit rnd) cs"

subsection \<open>Ship\<close>

text \<open>
  \<^verbatim>\<open>hits\<close> is a Python set whose length is read by \<^verbatim>\<open>is_sunk\<close>, so it is a
  finite set here.
\<close>

record ship =
  ship_size :: int
  positions :: "coord list"
  hits :: "coord fset"

definition Ship :: "int \<Rightarrow> coord list \<Rightarrow> ship" where
  "Ship sz ps = \<lparr>ship_size = sz, positions = ps, hits = {||}\<rparr>"

definition check_hit :: "ship \<Rightarrow> coord \<Rightarrow> bool \<times> ship" where
  "check_hit s target =
     (if target \<in> set (positions s)
      then (True, s\<lparr>hits := finsert target (hits s)\<rparr>)
      else (False, s))"

definition is_sunk :: "ship \<Rightarrow> bool" where
  "is_sunk s = (int (fcard (hits s)) = ship_size s)"

text \<open>
  \<^verbatim>\<open>any(s.check_hit(tgt) for s in ships)\<close>: the generator is consumed only up to
  the first ship that reports a hit.
\<close>

fun any_check_hit :: "ship list \<Rightarrow> coord \<Rightarrow> bool \<times> ship list" where
  "any_check_hit [] target = (False, [])"
| "any_check_hit (s # ss) target =
     (case check_hit s target of
        (True, s1) \<Rightarrow> (True, s1 # ss)
      | (False, s1) \<Rightarrow> (case any_check_hit ss target of (b, ss1) \<Rightarrow> (b, s1 # ss1)))"

subsection \<open>Grid\<close>

record grid =
  g_grid_size :: int
  cells :: "coord \<Rightarrow> char option"

definition Grid :: "int \<Rightarrow> grid" where
  "Grid gs =
     \<lparr>g_grid_size = gs,
      cells = map_of (map (\<lambda>p. (p, CHR '' '')) (List.product (py_range gs) (py_range gs)))\<rparr>"

definition update :: "grid \<Rightarrow> coord \<Rightarrow> bool \<Rightarrow> grid" where
  "update g target hit = g\<lparr>cells := (cells g)(target \<mapsto> (if hit then CHR ''X'' else CHR ''O''))\<rparr>"

subsection \<open>Player\<close>

record player =
  grid :: grid
  ships :: "ship list"

text \<open>\<^verbatim>\<open>Player._calc_positions\<close>; any orientation other than \<^verbatim>\<open>'h'\<close> takes the vertical branch.\<close>

definition calc_positions :: "player \<Rightarrow> coord \<Rightarrow> int \<Rightarrow> string \<Rightarrow> coord list option" where
  "calc_positions self start sz orient =
     (let r = fst start; c = snd start
      in if orient = ''h'' then
           (if c + sz > g_grid_size (grid self) then None
            else Some (map (\<lambda>i. (r, c + i)) (py_range sz)))
         else
           (if r + sz > g_grid_size (grid self) then None
            else Some (map (\<lambda>i. (r + i, c)) (py_range sz))))"

definition all_sunk :: "player \<Rightarrow> bool" where
  "all_sunk self = list_all is_sunk (ships self)"

subsection \<open>Game: attack resolution\<close>

record game =
  player :: player
  computer :: player
  pc_ctrl :: strategy
  gm_grid_size :: int
  reports :: "string list"

text \<open>
  How an iteration of the loop in \<^verbatim>\<open>Game.play\<close> leaves the player's attack:
  \<open>Continue\<close> is the \<^verbatim>\<open>continue\<close> statement (the turn is asked again),
  \<open>Proceed\<close> falls through to the rest of the iteration.
\<close>

datatype 'a flow = Continue 'a | Proceed 'a

text \<open>
  The player's attack, from the already-targeted check to the report of the shot
  (\<open>move\<close> is \<^verbatim>\<open>move.upper()\<close>, \<open>tgt\<close> the parsed target). Reading
  \<^verbatim>\<open>cells[tgt]\<close> raises \<^verbatim>\<open>KeyError\<close> for a key the dict does not have.
\<close>

definition player_attack :: "game \<Rightarrow> string \<Rightarrow> coord \<Rightarrow> error + game flow" where
  "player_attack g move tgt =
     (case cells (grid (computer g)) tgt of
        None \<Rightarrow> Inl KeyError
      | Some v \<Rightarrow>
          if v \<noteq> CHR '' '' then
            Inr (Continue (g\<lparr>reports := reports g @ [''You already fired at '' @ move @ ''!'']\<rparr>))
          else
            (case any_check_hit (ships (computer g)) tgt of
               (hit, ships1) \<Rightarrow>
                 Inr (Proceed
                   (g\<lparr>computer := (computer g)\<lparr>ships := ships1,
                                                   grid := update (grid (computer g)) tgt hit\<rparr>,
                      reports := reports g @
                        [''You fire at '' @ move @ '': '' @ (if hit then ''Hit'' else ''Miss'')]\<rparr>))))"

text \<open>
  The computer's attack: \<^verbatim>\<open>choose_target\<close>, the shot at the player's fleet, the
  update of the player's grid and \<^verbatim>\<open>process_result\<close>. It has no already-targeted
  check. The result carries the target and the outcome of the shot.
\<close>

definition ai_attack :: "game \<Rightarrow> nat \<Rightarrow> (nat \<Rightarrow> nat) \<Rightarrow> error + (coord \<times> bool \<times> game)" where
  "ai_attack g d rnd =
     (case choose_target (pc_ctrl g) d of
        Inl e \<Rightarrow> Inl e
      | Inr (pc_tgt, ctrl1) \<Rightarrow>
          (case any_check_hit (ships (player g)) pc_tgt of
             (hit_pc, ships1) \<Rightarrow>
               Inr (pc_tgt, hit_pc,
                    g\<lparr>player := (player g)\<lparr>ships := ships1,
                                             grid := update (grid (player g)) pc_tgt hit_pc\<rparr>,
                      pc_ctrl := process_result ctrl1 pc_tgt hit_pc rnd\<rparr>)))"

section \<open>Properties\<close>

declare sd_choose_target.simps [simp del]
declare sg_choose_target.simps [simp del]

subsection \<open>Ranges, choices and the random source\<close>

lemma set_py_range: "set (py_range n) = {0..<n}"
  by (auto simp: py_range_def)

lemma distinct_py_range: "distinct (py_range n)"
  by (simp add: py_range_def)

lemma length_py_range: "length (py_range n) = nat n"
  by (simp add: py_range_def)

lemma set_all_choices: "set (all_choices gs sh) = {p. in_bounds gs p} - sh"
  by (auto simp: all_choices_def in_bounds_def set_py_range)

lemma distinct_all_choices: "distinct (all_choices gs sh)"
  by (simp add: all_choices_def distinct_product distinct_py_range)

lemma set_checker_choices:
  "set (checker_choices gs sh) = {p. in_bounds gs p \<and> (fst p + snd p) mod 2 = 0} - sh"
  by (auto simp: checker_choices_def in_bounds_def set_py_range)

lemma random_choice_Inr: "xs \<noteq> [] \<Longrightarrow> \<exists>x. random_choice d xs = Inr x \<and> x \<in> set xs"
  by (simp add: random_choice_def)

lemma random_choice_mem: "random_choice d xs = Inr x \<Longrightarrow> x \<in> set xs"
  by (auto simp: random_choice_def split: if_splits)

lemma random_choice_Inl: "random_choice d xs = Inl e \<Longrightarrow> xs = [] \<and> e = IndexError"
  by (auto simp: random_choice_def split: if_splits)

lemma mset_shuffle_from: "k < length xs \<Longrightarrow> mset (shuffle_from k rnd xs) = mset xs"
proof (induction k arbitrary: rnd xs)
  case 0
  then show ?case by simp
next
  case (Suc k)
  let ?j = "rnd 0 mod (Suc k + 1)"
  let ?ys = "xs[Suc k := xs ! ?j, ?j := xs ! Suc k]"
  have "?j < Suc k + 1" by simp
  with Suc.prems have j: "?j < length xs" by linarith
  have sw: "mset ?ys = mset xs"
    using mset_swap [OF j Suc.prems] .
  have "k < length ?ys" using Suc.prems by simp
  then have "mset (shuffle_from k (\<lambda>n. rnd (Suc n)) ?ys) = mset ?ys"
    by (rule Suc.IH)
  with sw show ?case by (simp add: Let_def)
qed

lemma mset_shuffle: "mset (shuffle rnd xs) = mset xs"
proof (cases xs)
  case Nil
  then show ?thesis by (simp add: shuffle_def)
next
  case (Cons x ys)
  then show ?thesis by (simp add: shuffle_def mset_shuffle_from)
qed

lemma set_shuffle: "set (shuffle rnd xs) = set xs"
  using mset_shuffle [of rnd xs] by (metis set_mset_mset)

lemma rs_choose_target_Inr:
  assumes "rs_choose_target s d = Inr (c, s')"
  shows "c \<in> set (all_choices (rs_grid_size s) (rs_shots s))"
    and "s' = s\<lparr>rs_shots := insert c (rs_shots s)\<rparr>"
  using assms by (auto simp: rs_choose_target_def split: sum.splits dest: random_choice_mem)

lemma sd_choose_target_Inr:
  "sd_choose_target s d = Inr (c, s') \<Longrightarrow>
     c \<notin> sd_shots s \<and> sd_shots s' = insert c (sd_shots s) \<and> sd_grid_size s' = sd_grid_size s
     \<and> set (sd_targets s') \<subseteq> set (sd_targets s)
     \<and> (c \<in> set (sd_targets s) \<or> c \<in> set (all_choices (sd_grid_size s) (sd_shots s)))"
proof (induction s d rule: sd_choose_target.induct)
  case (1 s d)
  show ?case
  proof (cases "sd_targets s = []")
    case True
    with "1.prems" show ?thesis
      by (auto simp: sd_choose_target.simps [of s d] set_all_choices split: sum.splits
               dest!: random_choice_mem)
  next
    case False
    let ?s1 = "s\<lparr>sd_targets := butlast (sd_targets s)\<rparr>"
    show ?thesis
    proof (cases "last (sd_targets s) \<in> sd_shots s")
      case True
      with False "1.prems" have r: "sd_choose_target ?s1 d = Inr (c, s')"
        by (simp add: sd_choose_target.simps [of s d])
      have "c \<notin> sd_shots ?s1 \<and> sd_shots s' = insert c (sd_shots ?s1) \<and> sd_grid_size s' = sd_grid_size ?s1
     \<and> set (sd_targets s') \<subseteq> set (sd_targets ?s1)
     \<and> (c \<in> set (sd_targets ?s1) \<or> c \<in> set (all_choices (sd_grid_size ?s1) (sd_shots ?s1)))"
        using "1.IH" [OF False refl refl _ r] True by simp
      then show ?thesis
        by (auto dest: in_set_butlastD)
    next
      case notin: False
      with False "1.prems" show ?thesis
        by (auto simp: sd_choose_target.simps [of s d] Let_def dest: in_set_butlastD)
    qed
  qed
qed

lemma sd_choose_target_ok:
  "all_choices (sd_grid_size s) (sd_shots s) \<noteq> [] \<Longrightarrow> \<exists>c s'. sd_choose_target s d = Inr (c, s')"
proof (induction s d rule: sd_choose_target.induct)
  case (1 s d)
  show ?case
  proof (cases "sd_targets s = []")
    case True
    with "1.prems" show ?thesis
      by (auto simp: sd_choose_target.simps [of s d] random_choice_def)
  next
    case False
    show ?thesis
    proof (cases "last (sd_targets s) \<in> sd_shots s")
      case True
      have "\<exists>c s'. sd_choose_target (s\<lparr>sd_targets := butlast (sd_targets s)\<rparr>) d = Inr (c, s')"
        using "1.IH" [OF False refl refl] True "1.prems" by simp
      with False True show ?thesis
        by (simp add: sd_choose_target.simps [of s d])
    next
      case notin: False
      with False show ?thesis
        by (simp add: sd_choose_target.simps [of s d] Let_def)
    qed
  qed
qed

lemma sd_choose_target_exhausted:
  "all_choices (sd_grid_size s) (sd_shots s) = [] \<Longrightarrow> set (sd_targets s) \<subseteq> sd_shots s \<Longrightarrow>
     sd_choose_target s d = Inl IndexError"
proof (induction s d rule: sd_choose_target.induct)
  case (1 s d)
  show ?case
  proof (cases "sd_targets s = []")
    case True
    with "1.prems" show ?thesis
      by (simp add: sd_choose_target.simps [of s d] random_choice_def)
  next
    case False
    then have l: "last (sd_targets s) \<in> sd_shots s"
      using "1.prems"(2) last_in_set by blast
    have "set (butlast (sd_targets s)) \<subseteq> sd_shots s"
      using "1.prems"(2) by (meson in_set_butlastD subset_iff)
    then have "sd_choose_target (s\<lparr>sd_targets := butlast (sd_targets s)\<rparr>) d = Inl IndexError"
      using "1.IH" [OF False refl refl] l "1.prems"(1) by simp
    with False l show ?thesis
      by (simp add: sd_choose_target.simps [of s d])
  qed
qed

lemma sg_choose_target_Inr:
  "sg_choose_target s d = Inr (c, s') \<Longrightarrow>
     c \<notin> sg_shots s \<and> sg_shots s' = insert c (sg_shots s) \<and> sg_grid_size s' = sg_grid_size s
     \<and> set (sg_targets s') \<subseteq> set (sg_targets s)
     \<and> (c \<in> set (sg_targets s) \<or> c \<in> set (all_choices (sg_grid_size s) (sg_shots s)))"
proof (induction s d rule: sg_choose_target.induct)
  case (1 s d)
  show ?case
  proof (cases "sg_hunt_mode s")
    case True
    with "1.prems" show ?thesis
      by (auto simp: sg_choose_target.simps [of s d] set_all_choices set_checker_choices Let_def
               split: sum.splits if_splits dest!: random_choice_mem)
  next
    case hm: False
    show ?thesis
    proof (cases "sg_targets s = []")
      case True
      with hm "1.prems" have r: "sg_choose_target (s\<lparr>sg_hunt_mode := True\<rparr>) d = Inr (c, s')"
        by (simp add: sg_choose_target.simps [of s d])
      show ?thesis
        using "1.IH"(2) [OF hm _ r] True by simp
    next
      case False
      let ?s1 = "s\<lparr>sg_targets := tl (sg_targets s)\<rparr>"
      show ?thesis
      proof (cases "hd (sg_targets s) \<in> sg_shots s")
        case True
        with hm False "1.prems" have r: "sg_choose_target ?s1 d = Inr (c, s')"
          by (simp add: sg_choose_target.simps [of s d])
        have "c \<notin> sg_shots ?s1 \<and> sg_shots s' = insert c (sg_shots ?s1)
           \<and> sg_grid_size s' = sg_grid_size ?s1
           \<and> set (sg_targets s') \<subseteq> set (sg_targets ?s1)
           \<and> (c \<in> set (sg_targets ?s1) \<or> c \<in> set (all_choices (sg_grid_size ?s1) (sg_shots ?s1)))"
          using "1.IH"(1) [OF hm False refl refl _ r] True by simp
        then show ?thesis
          using False by (auto dest: list.set_sel(2))
      next
        case notin: False
        with hm False "1.prems" show ?thesis
          by (auto simp: sg_choose_target.simps [of s d] Let_def dest: list.set_sel(2))
      qed
    qed
  qed
qed

lemma checker_choices_Nil: "all_choices gs sh = [] \<Longrightarrow> checker_choices gs sh = []"
proof -
  assume "all_choices gs sh = []"
  then have "set (all_choices gs sh) = {}" by simp
  then have "set (checker_choices gs sh) = {}"
    unfolding set_all_choices set_checker_choices by blast
  then show ?thesis by simp
qed

lemma sg_choose_target_ok:
  "all_choices (sg_grid_size s) (sg_shots s) \<noteq> [] \<Longrightarrow> \<exists>c s'. sg_choose_target s d = Inr (c, s')"
proof (induction s d rule: sg_choose_target.induct)
  case (1 s d)
  show ?case
  proof (cases "sg_hunt_mode s")
    case True
    with "1.prems" show ?thesis
      by (auto simp: sg_choose_target.simps [of s d] random_choice_def Let_def)
  next
    case hm: False
    show ?thesis
    proof (cases "sg_targets s = []")
      case True
      have "\<exists>c s'. sg_choose_target (s\<lparr>sg_hunt_mode := True\<rparr>) d = Inr (c, s')"
        using "1.IH"(2) [OF hm] True "1.prems" by simp
      with hm True show ?thesis
        by (simp add: sg_choose_target.simps [of s d])
    next
      case False
      show ?thesis
      proof (cases "hd (sg_targets s) \<in> sg_shots s")
        case True
        have "\<exists>c s'. sg_choose_target (s\<lparr>sg_targets := tl (sg_targets s)\<rparr>) d = Inr (c, s')"
          using "1.IH"(1) [OF hm False refl refl] True "1.prems" by simp
        with hm False True show ?thesis
          by (simp add: sg_choose_target.simps [of s d])
      next
        case notin: False
        with hm False show ?thesis
          by (simp add: sg_choose_target.simps [of s d] Let_def)
      qed
    qed
  qed
qed

lemma sg_choose_target_exhausted:
  "all_choices (sg_grid_size s) (sg_shots s) = [] \<Longrightarrow> set (sg_targets s) \<subseteq> sg_shots s \<Longrightarrow>
     sg_choose_target s d = Inl IndexError"
proof (induction s d rule: sg_choose_target.induct)
  case (1 s d)
  show ?case
  proof (cases "sg_hunt_mode s")
    case True
    with "1.prems" show ?thesis
      by (simp add: sg_choose_target.simps [of s d] random_choice_def checker_choices_Nil)
  next
    case hm: False
    show ?thesis
    proof (cases "sg_targets s = []")
      case True
      have "sg_choose_target (s\<lparr>sg_hunt_mode := True\<rparr>) d = Inl IndexError"
        using "1.IH"(2) [OF hm] True "1.prems" by simp
      with hm True show ?thesis
        by (simp add: sg_choose_target.simps [of s d])
    next
      case False
      then have l: "hd (sg_targets s) \<in> sg_shots s"
        using "1.prems"(2) by (meson hd_in_set subset_iff)
      have "set (tl (sg_targets s)) \<subseteq> sg_shots s"
        using "1.prems"(2) False by (meson list.set_sel(2) subset_iff)
      then have "sg_choose_target (s\<lparr>sg_targets := tl (sg_targets s)\<rparr>) d = Inl IndexError"
        using "1.IH"(1) [OF hm False refl refl] l "1.prems"(1) by simp
      with hm False l show ?thesis
        by (simp add: sg_choose_target.simps [of s d])
    qed
  qed
qed

lemma choose_target_Inr:
  assumes "choose_target s d = Inr (c, s')"
  shows "c \<notin> shots s" and "shots s' = insert c (shots s)" and "grid_size s' = grid_size s"
    and "set (targets s') \<subseteq> set (targets s)"
    and "c \<in> set (targets s) \<or> in_bounds (grid_size s) c"
proof -
  have "c \<notin> shots s \<and> shots s' = insert c (shots s) \<and> grid_size s' = grid_size s
      \<and> set (targets s') \<subseteq> set (targets s) \<and> (c \<in> set (targets s) \<or> in_bounds (grid_size s) c)"
  proof (cases s)
    case (RandomShooter x)
    with assms obtain x' where r: "rs_choose_target x d = Inr (c, x')" and s': "s' = RandomShooter x'"
      by (cases "rs_choose_target x d") auto
    from rs_choose_target_Inr [OF r] RandomShooter s' show ?thesis
      by (auto simp: set_all_choices)
  next
    case (SeekAndDestroy x)
    with assms obtain x' where r: "sd_choose_target x d = Inr (c, x')" and s': "s' = SeekAndDestroy x'"
      by (cases "sd_choose_target x d") auto
    from sd_choose_target_Inr [OF r] SeekAndDestroy s' show ?thesis
      by (auto simp: set_all_choices)
  next
    case (StrategicGenius x)
    with assms obtain x' where r: "sg_choose_target x d = Inr (c, x')" and s': "s' = StrategicGenius x'"
      by (cases "sg_choose_target x d") auto
    from sg_choose_target_Inr [OF r] StrategicGenius s' show ?thesis
      by (auto simp: set_all_choices)
  qed
  then show "c \<notin> shots s" and "shots s' = insert c (shots s)" and "grid_size s' = grid_size s"
    and "set (targets s') \<subseteq> set (targets s)"
    and "c \<in> set (targets s) \<or> in_bounds (grid_size s) c"
    by blast+
qed

lemma all_choices_Nil_iff: "all_choices gs sh = [] \<longleftrightarrow> (\<forall>p. in_bounds gs p \<longrightarrow> p \<in> sh)"
proof -
  have "all_choices gs sh = [] \<longleftrightarrow> set (all_choices gs sh) = {}" by simp
  also have "\<dots> \<longleftrightarrow> (\<forall>p. in_bounds gs p \<longrightarrow> p \<in> sh)"
    unfolding set_all_choices by blast
  finally show ?thesis .
qed

lemma choose_target_ok:
  assumes "in_bounds (grid_size s) p" and "p \<notin> shots s"
  shows "\<exists>c s'. choose_target s d = Inr (c, s')"
proof (cases s)
  case (RandomShooter x)
  with assms have "all_choices (rs_grid_size x) (rs_shots x) \<noteq> []"
    by (cases p) (auto simp: all_choices_Nil_iff)
  with RandomShooter show ?thesis
    by (simp add: rs_choose_target_def random_choice_def)
next
  case (SeekAndDestroy x)
  with assms have "all_choices (sd_grid_size x) (sd_shots x) \<noteq> []"
    by (cases p) (auto simp: all_choices_Nil_iff)
  from sd_choose_target_ok [OF this, of d] SeekAndDestroy show ?thesis
    by auto
next
  case (StrategicGenius x)
  with assms have "all_choices (sg_grid_size x) (sg_shots x) \<noteq> []"
    by (cases p) (auto simp: all_choices_Nil_iff)
  from sg_choose_target_ok [OF this, of d] StrategicGenius show ?thesis
    by auto
qed

lemma choose_target_exhausted:
  assumes "\<forall>p. in_bounds (grid_size s) p \<longrightarrow> p \<in> shots s"
      and "list_all (in_bounds (grid_size s)) (targets s)"
  shows "choose_target s d = Inl IndexError"
proof (cases s)
  case (RandomShooter x)
  with assms have "all_choices (rs_grid_size x) (rs_shots x) = []"
    by (simp add: all_choices_Nil_iff)
  with RandomShooter show ?thesis
    by (simp add: rs_choose_target_def random_choice_def)
next
  case (SeekAndDestroy x)
  with assms have e: "all_choices (sd_grid_size x) (sd_shots x) = []"
    by (simp add: all_choices_Nil_iff)
  from assms SeekAndDestroy have "set (sd_targets x) \<subseteq> sd_shots x"
    by (auto simp: list_all_iff)
  from sd_choose_target_exhausted [OF e this, of d] SeekAndDestroy show ?thesis
    by simp
next
  case (StrategicGenius x)
  with assms have e: "all_choices (sg_grid_size x) (sg_shots x) = []"
    by (simp add: all_choices_Nil_iff)
  from assms StrategicGenius have "set (sg_targets x) \<subseteq> sg_shots x"
    by (auto simp: list_all_iff)
  from sg_choose_target_exhausted [OF e this, of d] StrategicGenius show ?thesis
    by simp
qed

lemma sg_enqueue_props:
  "sg_shots (sg_enqueue s ns) = sg_shots s \<and> sg_grid_size (sg_enqueue s ns) = sg_grid_size s
   \<and> sg_hunt_mode (sg_enqueue s ns) = sg_hunt_mode s
   \<and> sg_targets (sg_enqueue s ns) =
       sg_targets s @ filter (\<lambda>n. in_bounds (sg_grid_size s) n \<and> n \<notin> sg_shots s) ns"
  by (induction ns arbitrary: s) auto

lemma sd_process_result_hit:
  "sd_process_result s coord True rnd =
     s\<lparr>sd_targets := sd_targets s @
        shuffle rnd (filter (in_bounds (sd_grid_size s))
          [(fst coord - 1, snd coord), (fst coord + 1, snd coord),
           (fst coord, snd coord - 1), (fst coord, snd coord + 1)])\<rparr>"
  by (simp add: sd_process_result_def Let_def del: filter.simps)

lemma sd_process_result_miss: "sd_process_result s coord False rnd = s"
  by (simp add: sd_process_result_def)

lemma sd_process_result_props:
  "sd_shots (sd_process_result s coord hit rnd) = sd_shots s"
  "sd_grid_size (sd_process_result s coord hit rnd) = sd_grid_size s"
  "set (sd_targets (sd_process_result s coord hit rnd))
     \<subseteq> set (sd_targets s) \<union> {p. in_bounds (sd_grid_size s) p}"
proof -
  show "sd_shots (sd_process_result s coord hit rnd) = sd_shots s"
    by (cases hit) (simp_all add: sd_process_result_hit sd_process_result_miss del: filter.simps)
  show "sd_grid_size (sd_process_result s coord hit rnd) = sd_grid_size s"
    by (cases hit) (simp_all add: sd_process_result_hit sd_process_result_miss del: filter.simps)
  show "set (sd_targets (sd_process_result s coord hit rnd))
     \<subseteq> set (sd_targets s) \<union> {p. in_bounds (sd_grid_size s) p}"
  proof (cases hit)
    case True
    have "set (shuffle rnd (filter (in_bounds (sd_grid_size s))
          [(fst coord - 1, snd coord), (fst coord + 1, snd coord),
           (fst coord, snd coord - 1), (fst coord, snd coord + 1)]))
        \<subseteq> {p. in_bounds (sd_grid_size s) p}"
      unfolding set_shuffle set_filter by blast
    with True show ?thesis
      by (simp add: sd_process_result_hit del: filter.simps) blast
  next
    case False
    then show ?thesis by (simp add: sd_process_result_miss)
  qed
qed

lemma sg_process_result_hit:
  "sg_process_result s coord True =
     s\<lparr>sg_hunt_mode := False,
       sg_targets := sg_targets s @
         filter (\<lambda>n. in_bounds (sg_grid_size s) n \<and> n \<notin> sg_shots s)
           [(fst coord, snd coord + 1), (fst coord, snd coord - 1),
            (fst coord + 1, snd coord), (fst coord - 1, snd coord)]\<rparr>"
proof -
  let ?ns = "[(fst coord, snd coord + 1), (fst coord, snd coord - 1),
            (fst coord + 1, snd coord), (fst coord - 1, snd coord)]"
  let ?s1 = "s\<lparr>sg_hunt_mode := False\<rparr>"
  have "sg_process_result s coord True = sg_enqueue ?s1 ?ns"
    by (simp add: sg_process_result_def Let_def del: sg_enqueue.simps)
  moreover have "sg_enqueue ?s1 ?ns =
      ?s1\<lparr>sg_targets := sg_targets ?s1 @
         filter (\<lambda>n. in_bounds (sg_grid_size ?s1) n \<and> n \<notin> sg_shots ?s1) ?ns\<rparr>"
    using sg_enqueue_props [of ?s1 ?ns] by (intro sg_state.equality) (simp_all del: sg_enqueue.simps filter.simps)
  ultimately show ?thesis by (simp del: sg_enqueue.simps filter.simps)
qed

lemma sg_process_result_miss: "sg_process_result s coord False = s"
  by (simp add: sg_process_result_def)

lemma sg_process_result_props:
  "sg_shots (sg_process_result s coord hit) = sg_shots s"
  "sg_grid_size (sg_process_result s coord hit) = sg_grid_size s"
  "set (sg_targets (sg_process_result s coord hit))
     \<subseteq> set (sg_targets s) \<union> {p. in_bounds (sg_grid_size s) p}"
proof -
  show "sg_shots (sg_process_result s coord hit) = sg_shots s"
    by (cases hit) (simp_all add: sg_process_result_hit sg_process_result_miss del: filter.simps)
  show "sg_grid_size (sg_process_result s coord hit) = sg_grid_size s"
    by (cases hit) (simp_all add: sg_process_result_hit sg_process_result_miss del: filter.simps)
  show "set (sg_targets (sg_process_result s coord hit))
     \<subseteq> set (sg_targets s) \<union> {p. in_bounds (sg_grid_size s) p}"
  proof (cases hit)
    case True
    then show ?thesis
      by (simp add: sg_process_result_hit del: filter.simps) blast
  next
    case False
    then show ?thesis by (simp add: sg_process_result_miss)
  qed
qed

lemma process_result_props:
  "shots (process_result s coord hit rnd) = shots s"
  "grid_size (process_result s coord hit rnd) = grid_size s"
  "list_all (in_bounds (grid_size s)) (targets s) \<Longrightarrow>
     list_all (in_bounds (grid_size s)) (targets (process_result s coord hit rnd))"
proof -
  show "shots (process_result s coord hit rnd) = shots s"
    by (cases s) (simp_all add: sd_process_result_props sg_process_result_props)
  show "grid_size (process_result s coord hit rnd) = grid_size s"
    by (cases s) (simp_all add: sd_process_result_props sg_process_result_props)
  assume inv: "list_all (in_bounds (grid_size s)) (targets s)"
  show "list_all (in_bounds (grid_size s)) (targets (process_result s coord hit rnd))"
  proof (cases s)
    case (RandomShooter x)
    then show ?thesis by simp
  next
    case (SeekAndDestroy x)
    with inv sd_process_result_props(3) [of x coord hit rnd] show ?thesis
      by (auto simp: list_all_iff)
  next
    case (StrategicGenius x)
    with inv sg_process_result_props(3) [of x coord hit] show ?thesis
      by (auto simp: list_all_iff)
  qed
qed

lemma choose_target_inv:
  assumes "choose_target s d = Inr (c, s')"
      and "list_all (in_bounds (grid_size s)) (targets s)"
  shows "list_all (in_bounds (grid_size s')) (targets s')"
  using choose_target_Inr(3,4) [OF assms(1)] assms(2)
  by (auto simp: list_all_iff)

lemma run_inv:
  "run s calls = Inr (out, s') \<Longrightarrow> list_all (in_bounds (grid_size s)) (targets s) \<Longrightarrow>
     grid_size s' = grid_size s \<and> list_all (in_bounds (grid_size s')) (targets s')"
proof (induction s calls arbitrary: out rule: run.induct)
  case (1 s)
  then show ?case by simp
next
  case (2 s d cs)
  from "2.prems"(1) obtain coord s1 out1 where
    c: "choose_target s d = Inr (coord, s1)" and r: "run s1 cs = Inr (out1, s')"
    by (auto split: sum.splits prod.splits)
  have i1: "list_all (in_bounds (grid_size s1)) (targets s1)"
    using choose_target_inv [OF c "2.prems"(2)] .
  have "grid_size s' = grid_size s1 \<and> list_all (in_bounds (grid_size s')) (targets s')"
    using "2.IH" [OF c refl r i1] .
  with choose_target_Inr(3) [OF c] show ?case by auto
next
  case (3 s coord hit rnd cs)
  from "3.prems"(1) have r: "run (process_result s coord hit rnd) cs = Inr (out, s')" by simp
  have "list_all (in_bounds (grid_size (process_result s coord hit rnd)))
          (targets (process_result s coord hit rnd))"
    using process_result_props(3) [OF "3.prems"(2)] by (simp add: process_result_props(2))
  from "3.IH" [OF r this] show ?case by (auto simp: process_result_props(2))
qed

lemma strategies_cases:
  assumes "strategies kind = Some new"
  shows "new = (\<lambda>gs. RandomShooter (rs_init gs)) \<or> new = (\<lambda>gs. SeekAndDestroy (sd_init gs))
       \<or> new = (\<lambda>gs. StrategicGenius (sg_init gs))"
proof -
  have "strategies kind = 
     (if kind = ''hard'' then Some (\<lambda>gs. StrategicGenius (sg_init gs))
      else if kind = ''medium'' then Some (\<lambda>gs. SeekAndDestroy (sd_init gs))
      else if kind = ''easy'' then Some (\<lambda>gs. RandomShooter (rs_init gs)) else None)"
    unfolding strategies_def fun_upd_def by simp
  with assms show ?thesis
    by (metis option.distinct(1) option.inject)
qed

lemma strategies_fresh:
  assumes "strategies kind = Some new"
  shows "shots (new gs) = {}" and "grid_size (new gs) = gs" and "targets (new gs) = []"
  using strategies_cases [OF assms]
  by (auto simp: rs_init_def sd_init_def sg_init_def)

lemma run_shots:
  "run s calls = Inr (out, s') \<Longrightarrow>
     distinct out \<and> set out \<inter> shots s = {} \<and> shots s' = shots s \<union> set out"
proof (induction s calls arbitrary: out rule: run.induct)
  case (1 s)
  then show ?case by simp
next
  case (2 s d cs)
  from "2.prems"(1) obtain coord s1 out1 where
    c: "choose_target s d = Inr (coord, s1)" and r: "run s1 cs = Inr (out1, s')"
    and out: "out = coord # out1"
    by (auto split: sum.splits prod.splits)
  have ih: "distinct out1 \<and> set out1 \<inter> shots s1 = {} \<and> shots s' = shots s1 \<union> set out1"
    using "2.IH" [OF c refl r] .
  from choose_target_Inr(1,2) [OF c] ih out show ?case by auto
next
  case (3 s coord hit rnd cs)
  then show ?case by (simp add: process_result_props(1))
qed

subsection \<open>C1: choose_target fails exactly on an exhausted board\<close>

text \<open>
  Claim C1. Take an instance of any of the three strategies, created by the table
  \<open>strategies\<close> for a board of size \<open>gs\<close>, after any sequence of calls that did
  not raise. Its targeted set is the set of the coordinates it returned. If every
  coordinate of the board is in that set, \<^verbatim>\<open>choose_target\<close> raises (the
  \<^verbatim>\<open>IndexError\<close> of \<^verbatim>\<open>random.choice\<close> on an empty list, which is the
  exhausted-board error of the specification); if some coordinate of the board is not
  in it, \<^verbatim>\<open>choose_target\<close> returns a coordinate.
\<close>

theorem choose_target_fails_iff_exhausted:
  assumes "strategies kind = Some new" and "run (new gs) calls = Inr (out, s)"
  shows "grid_size s = gs \<and> shots s = set out
       \<and> ((\<forall>r c. 0 \<le> r \<and> r < gs \<and> 0 \<le> c \<and> c < gs \<longrightarrow> (r, c) \<in> shots s)
            \<longrightarrow> choose_target s d = Inl IndexError)
       \<and> ((\<exists>r c. 0 \<le> r \<and> r < gs \<and> 0 \<le> c \<and> c < gs \<and> (r, c) \<notin> shots s)
            \<longrightarrow> (\<exists>coord s'. choose_target s d = Inr (coord, s')))"
proof -
  note fresh = strategies_fresh [OF assms(1), of gs]
  have inv0: "list_all (in_bounds (grid_size (new gs))) (targets (new gs))"
    by (simp add: fresh)
  from run_inv [OF assms(2) inv0] fresh
  have gs: "grid_size s = gs" and inv: "list_all (in_bounds (grid_size s)) (targets s)"
    by auto
  from run_shots [OF assms(2)] fresh have sh: "shots s = set out" by simp
  have a: "choose_target s d = Inl IndexError"
    if "\<forall>r c. 0 \<le> r \<and> r < gs \<and> 0 \<le> c \<and> c < gs \<longrightarrow> (r, c) \<in> shots s"
  proof (rule choose_target_exhausted [OF _ inv])
    from that gs show "\<forall>p. in_bounds (grid_size s) p \<longrightarrow> p \<in> shots s"
      by (simp add: in_bounds_def)
  qed
  have b: "\<exists>coord s'. choose_target s d = Inr (coord, s')"
    if "\<exists>r c. 0 \<le> r \<and> r < gs \<and> 0 \<le> c \<and> c < gs \<and> (r, c) \<notin> shots s"
  proof -
    from that obtain r c where "in_bounds (grid_size s) (r, c)" and "(r, c) \<notin> shots s"
      using gs by (auto simp: in_bounds_def)
    then show ?thesis by (rule choose_target_ok)
  qed
  from gs sh a b show ?thesis by blast
qed

theorem choose_target_fails_iff_exhausted_witness:
  "choose_target
     (SeekAndDestroy \<lparr>sd_grid_size = 2, sd_targets = [(0, 1), (1, 0)],
                      sd_shots = {(0, 0), (1, 0), (0, 1), (1, 1)}\<rparr>) 3 = Inl IndexError
   \<and> (\<exists>coord s'. choose_target (StrategicGenius (sg_init 2)) 3 = Inr (coord, s'))"
proof -
  let ?s = "SeekAndDestroy \<lparr>sd_grid_size = 2, sd_targets = [(0, 1), (1, 0)],
                             sd_shots = {(0, 0), (1, 0), (0, 1), (1, 1)}\<rparr>"
  have k1: "strategies ''medium'' = Some (\<lambda>gs. SeekAndDestroy (sd_init gs))"
    by (simp add: strategies_def)
  have r1: "run (SeekAndDestroy (sd_init 2))
              [Choose 0, Result (0, 0) True (\<lambda>n. 0), Choose 0, Choose 0, Choose 0,
               Result (1, 1) True (\<lambda>n. 1)]
            = Inr ([(0, 0), (1, 0), (0, 1), (1, 1)], ?s)"
    by (simp add: sd_init_def sd_choose_target.simps sd_process_result_def in_bounds_def
          shuffle_def all_choices_def py_range_def upto.simps random_choice_def Let_def
          insert_commute)
  have full: "\<forall>r c. 0 \<le> r \<and> r < 2 \<and> 0 \<le> c \<and> c < 2 \<longrightarrow> (r, c) \<in> shots ?s"
  proof (intro allI impI)
    fix r c :: int
    assume "0 \<le> r \<and> r < 2 \<and> 0 \<le> c \<and> c < 2"
    then have "(r = 0 \<or> r = 1) \<and> (c = 0 \<or> c = 1)" by presburger
    then show "(r, c) \<in> shots ?s" by auto
  qed
  have a: "choose_target ?s 3 = Inl IndexError"
    using choose_target_fails_iff_exhausted [OF k1 r1, of 3] full by blast
  have k2: "strategies ''hard'' = Some (\<lambda>gs. StrategicGenius (sg_init gs))"
    by (simp add: strategies_def)
  have r2: "run (StrategicGenius (sg_init 2)) [] = Inr ([], StrategicGenius (sg_init 2))"
    by simp
  have some: "\<exists>r c. 0 \<le> r \<and> r < 2 \<and> 0 \<le> c \<and> c < 2 \<and> (r, c) \<notin> shots (StrategicGenius (sg_init 2))"
    by (rule exI [of _ 0], rule exI [of _ 0]) (simp add: sg_init_def)
  have b: "\<exists>coord s'. choose_target (StrategicGenius (sg_init 2)) 3 = Inr (coord, s')"
    using choose_target_fails_iff_exhausted [OF k2 r2, of 3] some by blast
  from a b show ?thesis by blast
qed

subsection \<open>C2: no coordinate is returned twice\<close>

text \<open>
  Claim C2. A call of \<^verbatim>\<open>choose_target\<close> that returns gives a coordinate that was
  not in the instance's targeted set and leaves it in the set of the state it returns.
  Hence, over any sequence of calls on one instance (with \<^verbatim>\<open>process_result\<close>
  calls in between), the coordinates returned are pairwise distinct, differ from those
  targeted before, and are all in the targeted set at the end.
\<close>

theorem no_self_repeat:
  "(choose_target s d = Inr (coord, s1) \<longrightarrow> coord \<notin> shots s \<and> shots s1 = insert coord (shots s))
   \<and> (run s calls = Inr (out, s2) \<longrightarrow>
        distinct out \<and> set out \<inter> shots s = {} \<and> shots s2 = shots s \<union> set out)"
  using choose_target_Inr(1,2) [of s d coord s1] run_shots [of s calls out s2] by blast


theorem no_self_repeat_witness:
  "run (SeekAndDestroy (sd_init 2))
     [Choose 0, Result (0, 0) True (\<lambda>n. 0), Choose 0, Choose 0, Choose 0]
     = Inr ([(0, 0), (1, 0), (0, 1), (1, 1)],
            SeekAndDestroy \<lparr>sd_grid_size = 2, sd_targets = [],
                            sd_shots = {(0, 0), (1, 0), (0, 1), (1, 1)}\<rparr>)
   \<and> distinct [(0, 0), (1, 0), (0, 1), (1, 1) :: coord]
   \<and> choose_target (SeekAndDestroy (sd_init 2)) 0
       = Inr ((0, 0), SeekAndDestroy \<lparr>sd_grid_size = 2, sd_targets = [], sd_shots = {(0, 0)}\<rparr>)
   \<and> (0, 0) \<notin> shots (SeekAndDestroy (sd_init 2))"
proof -
  let ?s = "SeekAndDestroy (sd_init 2)"
  let ?calls = "[Choose 0, Result (0, 0) True (\<lambda>n. 0), Choose 0, Choose 0, Choose 0]"
  let ?out = "[(0, 0), (1, 0), (0, 1), (1, 1)] :: coord list"
  let ?s2 = "SeekAndDestroy \<lparr>sd_grid_size = 2, sd_targets = [],
                            sd_shots = {(0, 0), (1, 0), (0, 1), (1, 1)}\<rparr>"
  let ?s1 = "SeekAndDestroy \<lparr>sd_grid_size = 2, sd_targets = [], sd_shots = {(0, 0)}\<rparr>"
  have r: "run ?s ?calls = Inr (?out, ?s2)"
    by (simp add: sd_init_def sd_choose_target.simps sd_process_result_def in_bounds_def
          shuffle_def all_choices_def py_range_def upto.simps random_choice_def Let_def
          insert_commute)
  have c: "choose_target ?s 0 = Inr ((0, 0), ?s1)"
    by (simp add: sd_init_def sd_choose_target.simps all_choices_def py_range_def upto.simps
          random_choice_def)
  from no_self_repeat [of ?s 0 "(0, 0)" ?s1 ?calls ?out ?s2] r c
  show ?thesis by blast
qed

subsection \<open>The size of the board and runs of choose_target\<close>

lemma board_set: "{p. in_bounds gs p} = set (List.product (py_range gs) (py_range gs))"
  by (auto simp: in_bounds_def set_py_range)

lemma finite_board: "finite {p. in_bounds gs p}"
  unfolding board_set by simp

lemma card_board: "card {p. in_bounds gs p} = nat gs * nat gs"
proof -
  have "distinct (List.product (py_range gs) (py_range gs))"
    by (simp add: distinct_product distinct_py_range)
  then have "card (set (List.product (py_range gs) (py_range gs)))
      = length (List.product (py_range gs) (py_range gs))"
    by (rule distinct_card)
  then show ?thesis
    unfolding board_set by (simp add: length_py_range)
qed

lemma run_choose_length:
  "run s (map Choose ds) = Inr (out, s') \<Longrightarrow> length out = length ds"
proof (induction ds arbitrary: s out)
  case Nil
  then show ?case by simp
next
  case (Cons d ds)
  from Cons.prems obtain coord s1 out1 where
    c: "choose_target s d = Inr (coord, s1)" and r: "run s1 (map Choose ds) = Inr (out1, s')"
    and out: "out = coord # out1"
    by (auto split: sum.splits prod.splits)
  from Cons.IH [OF r] out show ?case by simp
qed

lemma run_choose_ok:
  "length ds \<le> card ({p. in_bounds (grid_size s) p} - shots s) \<Longrightarrow>
     \<exists>out s'. run s (map Choose ds) = Inr (out, s')"
proof (induction ds arbitrary: s)
  case Nil
  then show ?case by simp
next
  case (Cons d ds)
  let ?U = "{p. in_bounds (grid_size s) p} - shots s"
  from Cons.prems have "card ?U \<noteq> 0" by auto
  then have "?U \<noteq> {}" by (metis card.empty)
  then obtain p where p: "in_bounds (grid_size s) p" "p \<notin> shots s" by blast
  from choose_target_ok [OF p, of d] obtain c s1 where
    c: "choose_target s d = Inr (c, s1)" by blast
  note props = choose_target_Inr [OF c]
  have fin: "finite ?U" using finite_board by simp
  have "{p. in_bounds (grid_size s1) p} - shots s1 = ?U - {c}"
    using props(2,3) by auto
  then have "card ({p. in_bounds (grid_size s1) p} - shots s1) \<ge> card ?U - 1"
    using fin by (simp add: card_Diff_singleton_if)
  with Cons.prems have "length ds \<le> card ({p. in_bounds (grid_size s1) p} - shots s1)"
    by simp
  from Cons.IH [OF this] obtain out1 s' where "run s1 (map Choose ds) = Inr (out1, s')"
    by blast
  with c show ?case by simp
qed

lemma run_in_bounds:
  "run s calls = Inr (out, s') \<Longrightarrow> list_all (in_bounds (grid_size s)) (targets s) \<Longrightarrow>
     list_all (in_bounds (grid_size s)) out"
proof (induction s calls arbitrary: out rule: run.induct)
  case (1 s)
  then show ?case by simp
next
  case (2 s d cs)
  from "2.prems"(1) obtain coord s1 out1 where
    c: "choose_target s d = Inr (coord, s1)" and r: "run s1 cs = Inr (out1, s')"
    and out: "out = coord # out1"
    by (auto split: sum.splits prod.splits)
  note props = choose_target_Inr [OF c]
  have i1: "list_all (in_bounds (grid_size s1)) (targets s1)"
    using choose_target_inv [OF c "2.prems"(2)] .
  have "list_all (in_bounds (grid_size s1)) out1"
    using "2.IH" [OF c refl r i1] .
  moreover have "in_bounds (grid_size s) coord"
    using props(5) "2.prems"(2) by (auto simp: list_all_iff)
  ultimately show ?case using out props(3) by simp
next
  case (3 s coord hit rnd cs)
  from "3.prems"(1) have r: "run (process_result s coord hit rnd) cs = Inr (out, s')" by simp
  have "list_all (in_bounds (grid_size (process_result s coord hit rnd)))
          (targets (process_result s coord hit rnd))"
    using process_result_props(3) [OF "3.prems"(2)] by (simp add: process_result_props(2))
  from "3.IH" [OF r this] show ?case by (simp add: process_result_props(2))
qed

subsection \<open>C3: RandomShooter covers the board\<close>

text \<open>
  Claim C3. On a fresh \<^verbatim>\<open>RandomShooter\<close> for a board of size \<open>n \<ge> 0\<close>, and for
  every list \<open>ds\<close> of \<open>n\<^sup>2\<close> random draws, \<open>n\<^sup>2\<close> calls of \<^verbatim>\<open>choose_target\<close>
  all return, the coordinates returned are pairwise distinct, and they are exactly the
  coordinates \<open>(r, c)\<close> with \<open>0 \<le> r, c < n\<close>.
\<close>

theorem random_shooter_coverage:
  assumes "0 \<le> n" and "length ds = nat (n * n)"
  shows "\<exists>out s'. run (RandomShooter (rs_init n)) (map Choose ds) = Inr (out, s')
           \<and> length out = nat (n * n) \<and> distinct out
           \<and> set out = {(r, c). 0 \<le> r \<and> r < n \<and> 0 \<le> c \<and> c < n}
           \<and> shots s' = set out"
proof -
  let ?s = "RandomShooter (rs_init n)"
  have gs: "grid_size ?s = n" and sh: "shots ?s = {}" and tg: "targets ?s = []"
    by (simp_all add: rs_init_def)
  have cb: "card {p. in_bounds n p} = nat (n * n)"
    using assms(1) by (simp add: card_board nat_mult_distrib)
  have "length ds \<le> card ({p. in_bounds (grid_size ?s) p} - shots ?s)"
    unfolding gs sh using cb assms(2) by simp
  from run_choose_ok [OF this] obtain out s' where
    r: "run ?s (map Choose ds) = Inr (out, s')" by blast
  have len: "length out = nat (n * n)"
    using run_choose_length [OF r] assms(2) by simp
  from run_shots [OF r] have d: "distinct out" and sh': "shots s' = set out"
    unfolding sh by simp_all
  have "list_all (in_bounds (grid_size ?s)) out"
    by (rule run_in_bounds [OF r]) (simp add: tg)
  then have sub: "set out \<subseteq> {p. in_bounds n p}"
    unfolding gs by (auto simp: list_all_iff)
  have "card (set out) = card {p. in_bounds n p}"
    using d len cb by (simp add: distinct_card)
  with sub have "set out = {p. in_bounds n p}"
    using finite_board card_subset_eq by blast
  also have "\<dots> = {(r, c). 0 \<le> r \<and> r < n \<and> 0 \<le> c \<and> c < n}"
    by (auto simp: in_bounds_def)
  finally have "set out = {(r, c). 0 \<le> r \<and> r < n \<and> 0 \<le> c \<and> c < n}" .
  with r len d sh' show ?thesis by blast
qed

theorem random_shooter_coverage_witness:
  "(0::int) \<le> 2 \<and> length [3, 1, 0, 5 :: nat] = nat (2 * 2)
   \<and> run (RandomShooter (rs_init 2)) (map Choose [3, 1, 0, 5])
       = Inr ([(1, 1), (0, 1), (0, 0), (1, 0)],
              RandomShooter \<lparr>rs_grid_size = 2, rs_shots = {(1, 1), (0, 1), (0, 0), (1, 0)}\<rparr>)
   \<and> set [(1, 1), (0, 1), (0, 0), (1, 0)] = {(r, c). 0 \<le> r \<and> r < (2::int) \<and> 0 \<le> c \<and> c < (2::int)}"
proof -
  have h1: "(0::int) \<le> 2" by simp
  have h2: "length [3, 1, 0, 5 :: nat] = nat (2 * 2)" by simp
  have r: "run (RandomShooter (rs_init 2)) (map Choose [3, 1, 0, 5])
       = Inr ([(1, 1), (0, 1), (0, 0), (1, 0)],
              RandomShooter \<lparr>rs_grid_size = 2, rs_shots = {(1, 1), (0, 1), (0, 0), (1, 0)}\<rparr>)"
    by (simp add: rs_init_def rs_choose_target_def all_choices_def py_range_def upto.simps
          random_choice_def insert_commute)
  from random_shooter_coverage [OF h1 h2] obtain out s' where
    o: "run (RandomShooter (rs_init 2)) (map Choose [3, 1, 0, 5]) = Inr (out, s')"
    and so: "set out = {(r, c). 0 \<le> r \<and> r < (2::int) \<and> 0 \<le> c \<and> c < (2::int)}"
    by blast
  from o have eq: "out = [(1, 1), (0, 1), (0, 0), (1, 0)]"
    unfolding r by simp
  have "set [(1, 1), (0, 1), (0, 0), (1, 0)]
          = {(r, c). 0 \<le> r \<and> r < (2::int) \<and> 0 \<le> c \<and> c < (2::int)}"
    using so unfolding eq .
  with h1 h2 r show ?thesis by (intro conjI)
qed

subsection \<open>C4: SeekAndDestroy queues the neighbours of a hit\<close>

text \<open>
  Claim C4. \<^verbatim>\<open>SeekAndDestroy.process_result(coord, True)\<close> changes only the queue:
  it keeps the entries already queued and appends, in an order that depends on the
  draws, each of the four neighbours of \<open>coord\<close> (up, down, left, right) that lies on
  the board, once. \<^verbatim>\<open>process_result(coord, False)\<close> changes nothing. On a fresh
  instance for a board of size 3, a hit at \<open>(1, 1)\<close> queues exactly
  \<open>(0, 1), (2, 1), (1, 0), (1, 2)\<close>, whatever the draws.
\<close>

theorem sd_process_result_enqueue:
  "(\<exists>vs. sd_process_result s coord True rnd = s\<lparr>sd_targets := sd_targets s @ vs\<rparr>
         \<and> mset vs = mset (filter (in_bounds (sd_grid_size s))
              [(fst coord - 1, snd coord), (fst coord + 1, snd coord),
               (fst coord, snd coord - 1), (fst coord, snd coord + 1)]))
   \<and> sd_process_result s coord False rnd = s
   \<and> process_result (SeekAndDestroy s) coord hit rnd
       = SeekAndDestroy (sd_process_result s coord hit rnd)
   \<and> set (sd_targets (sd_process_result (sd_init 3) (1, 1) True rnd))
       = {(0, 1), (2, 1), (1, 0), (1, 2)}"
proof -
  let ?ns = "[(fst coord - 1, snd coord), (fst coord + 1, snd coord),
               (fst coord, snd coord - 1), (fst coord, snd coord + 1)]"
  have a: "\<exists>vs. sd_process_result s coord True rnd = s\<lparr>sd_targets := sd_targets s @ vs\<rparr>
         \<and> mset vs = mset (filter (in_bounds (sd_grid_size s)) ?ns)"
    using sd_process_result_hit [of s coord rnd] mset_shuffle by blast
  have f: "filter (in_bounds 3) [(1 - 1, 1), (1 + 1, 1), (1, 1 - 1), (1, 1 + 1)]
             = [(0, 1), (2, 1), (1, 0), (1, 2)]"
    by (simp add: in_bounds_def)
  have "set (sd_targets (sd_process_result (sd_init 3) (1, 1) True rnd))
          = set (filter (in_bounds 3) [(1 - 1, 1), (1 + 1, 1), (1, 1 - 1), (1, 1 + 1)])"
    by (simp add: sd_process_result_hit sd_init_def set_shuffle del: filter.simps)
  then have c: "set (sd_targets (sd_process_result (sd_init 3) (1, 1) True rnd))
       = {(0, 1), (2, 1), (1, 0), (1, 2)}"
    unfolding f by simp
  from a c show ?thesis
    by (simp add: sd_process_result_miss)
qed

subsection \<open>Single steps of StrategicGenius.choose_target\<close>

lemma sg_hunt_step:
  assumes "sg_hunt_mode s"
  shows "sg_choose_target s d =
     (let choices = (if checker_choices (sg_grid_size s) (sg_shots s) = []
                     then all_choices (sg_grid_size s) (sg_shots s)
                     else checker_choices (sg_grid_size s) (sg_shots s))
      in if choices = [] then Inl IndexError
         else Inr (choices ! (d mod length choices),
                   s\<lparr>sg_shots := insert (choices ! (d mod length choices)) (sg_shots s)\<rparr>))"
  using assms by (simp add: sg_choose_target.simps [of s d] random_choice_def Let_def)

lemma sg_target_step_empty:
  assumes "\<not> sg_hunt_mode s" and "sg_targets s = []"
  shows "sg_choose_target s d = sg_choose_target (s\<lparr>sg_hunt_mode := True\<rparr>) d"
  using assms by (simp add: sg_choose_target.simps [of s d])

lemma sg_target_step_fresh:
  assumes "\<not> sg_hunt_mode s" and "sg_targets s = c # cs" and "c \<notin> sg_shots s"
  shows "sg_choose_target s d = Inr (c, s\<lparr>sg_targets := cs, sg_shots := insert c (sg_shots s)\<rparr>)"
  using assms by (simp add: sg_choose_target.simps [of s d])

lemma sg_hunt_checker:
  assumes "sg_hunt_mode s"
      and "in_bounds (sg_grid_size s) p" and "(fst p + snd p) mod 2 = 0" and "p \<notin> sg_shots s"
  shows "\<exists>c. sg_choose_target s d = Inr (c, s\<lparr>sg_shots := insert c (sg_shots s)\<rparr>)
              \<and> (fst c + snd c) mod 2 = 0 \<and> in_bounds (sg_grid_size s) c \<and> c \<notin> sg_shots s"
proof -
  define ch where "ch = checker_choices (sg_grid_size s) (sg_shots s)"
  have "p \<in> set ch"
    unfolding ch_def set_checker_choices using assms(2-4) by simp
  then have ne: "ch \<noteq> []" by auto
  define c where "c = ch ! (d mod length ch)"
  have "c \<in> set ch" unfolding c_def using ne by simp
  then have p: "(fst c + snd c) mod 2 = 0 \<and> in_bounds (sg_grid_size s) c \<and> c \<notin> sg_shots s"
    unfolding ch_def set_checker_choices by simp
  have r: "sg_choose_target s d = Inr (c, s\<lparr>sg_shots := insert c (sg_shots s)\<rparr>)"
    unfolding sg_hunt_step [OF assms(1)] c_def using ne
    by (simp only: ch_def [symmetric] Let_def if_False)
  show ?thesis
    by (rule exI [of _ c]) (use r p in \<open>intro conjI; simp\<close>)
qed

lemma sg_hunt_fallback:
  assumes "sg_hunt_mode s"
      and "\<not> (\<exists>p. in_bounds (sg_grid_size s) p \<and> (fst p + snd p) mod 2 = 0 \<and> p \<notin> sg_shots s)"
      and "in_bounds (sg_grid_size s) p" and "p \<notin> sg_shots s"
  shows "\<exists>c. sg_choose_target s d = Inr (c, s\<lparr>sg_shots := insert c (sg_shots s)\<rparr>)
              \<and> c = all_choices (sg_grid_size s) (sg_shots s)
                      ! (d mod length (all_choices (sg_grid_size s) (sg_shots s)))
              \<and> in_bounds (sg_grid_size s) c \<and> c \<notin> sg_shots s"
proof -
  define al where "al = all_choices (sg_grid_size s) (sg_shots s)"
  have e: "checker_choices (sg_grid_size s) (sg_shots s) = []"
  proof (cases "checker_choices (sg_grid_size s) (sg_shots s)")
    case Nil
    then show ?thesis .
  next
    case (Cons q qs)
    then have "q \<in> set (checker_choices (sg_grid_size s) (sg_shots s))" by simp
    then have "in_bounds (sg_grid_size s) q \<and> (fst q + snd q) mod 2 = 0 \<and> q \<notin> sg_shots s"
      unfolding set_checker_choices by simp
    then have "\<exists>p. in_bounds (sg_grid_size s) p \<and> (fst p + snd p) mod 2 = 0 \<and> p \<notin> sg_shots s"
      by (rule exI)
    with assms(2) show ?thesis by (rule notE)
  qed
  have "p \<in> set al"
    unfolding al_def set_all_choices using assms(3,4) by simp
  then have ne: "al \<noteq> []" by auto
  define c where "c = al ! (d mod length al)"
  have "c \<in> set al" unfolding c_def using ne by simp
  then have p: "in_bounds (sg_grid_size s) c \<and> c \<notin> sg_shots s"
    unfolding al_def set_all_choices by simp
  have r: "sg_choose_target s d = Inr (c, s\<lparr>sg_shots := insert c (sg_shots s)\<rparr>)"
    unfolding sg_hunt_step [OF assms(1)] c_def e using ne
    by (simp add: al_def [symmetric] Let_def)
  show ?thesis
    unfolding al_def [symmetric]
    by (rule exI [of _ c]) (use r p c_def in \<open>intro conjI; simp\<close>)
qed

subsection \<open>C6: hunting on the checkerboard\<close>

text \<open>
  Claim C6. Let a \<^verbatim>\<open>StrategicGenius\<close> be in hunt mode. As long as some coordinate
  of the board with even \<open>row + column\<close> is untargeted, \<^verbatim>\<open>choose_target\<close> returns
  an untargeted coordinate of the board with even \<open>row + column\<close>. When no such
  coordinate is left but some coordinate of the board is untargeted, it does not
  raise: it returns the entry of the full untargeted list that the draw selects.
  In both cases only the targeted set changes.
\<close>

theorem sg_hunting_parity:
  assumes "sg_hunt_mode s"
  shows "((\<exists>p. in_bounds (sg_grid_size s) p \<and> (fst p + snd p) mod 2 = 0 \<and> p \<notin> sg_shots s)
          \<longrightarrow> (\<exists>c. sg_choose_target s d = Inr (c, s\<lparr>sg_shots := insert c (sg_shots s)\<rparr>)
                 \<and> (fst c + snd c) mod 2 = 0 \<and> in_bounds (sg_grid_size s) c \<and> c \<notin> sg_shots s))
       \<and> (\<not> (\<exists>p. in_bounds (sg_grid_size s) p \<and> (fst p + snd p) mod 2 = 0 \<and> p \<notin> sg_shots s)
          \<and> (\<exists>p. in_bounds (sg_grid_size s) p \<and> p \<notin> sg_shots s)
          \<longrightarrow> (\<exists>c. sg_choose_target s d = Inr (c, s\<lparr>sg_shots := insert c (sg_shots s)\<rparr>)
                 \<and> c = all_choices (sg_grid_size s) (sg_shots s)
                         ! (d mod length (all_choices (sg_grid_size s) (sg_shots s)))
                 \<and> in_bounds (sg_grid_size s) c \<and> c \<notin> sg_shots s))"
proof (rule conjI)
  show "(\<exists>p. in_bounds (sg_grid_size s) p \<and> (fst p + snd p) mod 2 = 0 \<and> p \<notin> sg_shots s)
          \<longrightarrow> (\<exists>c. sg_choose_target s d = Inr (c, s\<lparr>sg_shots := insert c (sg_shots s)\<rparr>)
                 \<and> (fst c + snd c) mod 2 = 0 \<and> in_bounds (sg_grid_size s) c \<and> c \<notin> sg_shots s)"
  proof
    assume "\<exists>p. in_bounds (sg_grid_size s) p \<and> (fst p + snd p) mod 2 = 0 \<and> p \<notin> sg_shots s"
    then obtain p where "in_bounds (sg_grid_size s) p" "(fst p + snd p) mod 2 = 0" "p \<notin> sg_shots s"
      by (elim exE conjE)
    then show "\<exists>c. sg_choose_target s d = Inr (c, s\<lparr>sg_shots := insert c (sg_shots s)\<rparr>)
                 \<and> (fst c + snd c) mod 2 = 0 \<and> in_bounds (sg_grid_size s) c \<and> c \<notin> sg_shots s"
      by (rule sg_hunt_checker [OF assms])
  qed
next
  show "\<not> (\<exists>p. in_bounds (sg_grid_size s) p \<and> (fst p + snd p) mod 2 = 0 \<and> p \<notin> sg_shots s)
          \<and> (\<exists>p. in_bounds (sg_grid_size s) p \<and> p \<notin> sg_shots s)
          \<longrightarrow> (\<exists>c. sg_choose_target s d = Inr (c, s\<lparr>sg_shots := insert c (sg_shots s)\<rparr>)
                 \<and> c = all_choices (sg_grid_size s) (sg_shots s)
                         ! (d mod length (all_choices (sg_grid_size s) (sg_shots s)))
                 \<and> in_bounds (sg_grid_size s) c \<and> c \<notin> sg_shots s)"
  proof
    assume a: "\<not> (\<exists>p. in_bounds (sg_grid_size s) p \<and> (fst p + snd p) mod 2 = 0 \<and> p \<notin> sg_shots s)
          \<and> (\<exists>p. in_bounds (sg_grid_size s) p \<and> p \<notin> sg_shots s)"
    then have n: "\<not> (\<exists>p. in_bounds (sg_grid_size s) p \<and> (fst p + snd p) mod 2 = 0 \<and> p \<notin> sg_shots s)"
      by (rule conjunct1)
    from a obtain p where "in_bounds (sg_grid_size s) p" "p \<notin> sg_shots s"
      by (elim exE conjE)
    then show "\<exists>c. sg_choose_target s d = Inr (c, s\<lparr>sg_shots := insert c (sg_shots s)\<rparr>)
                 \<and> c = all_choices (sg_grid_size s) (sg_shots s)
                         ! (d mod length (all_choices (sg_grid_size s) (sg_shots s)))
                 \<and> in_bounds (sg_grid_size s) c \<and> c \<notin> sg_shots s"
      by (rule sg_hunt_fallback [OF assms n])
  qed
qed

theorem sg_hunting_parity_witness:
  "sg_hunt_mode (sg_init 2)
   \<and> (\<exists>c. sg_choose_target (sg_init 2) 1
            = Inr (c, (sg_init 2)\<lparr>sg_shots := insert c (sg_shots (sg_init 2))\<rparr>)
          \<and> (fst c + snd c) mod 2 = 0 \<and> in_bounds (sg_grid_size (sg_init 2)) c
          \<and> c \<notin> sg_shots (sg_init 2))
   \<and> sg_choose_target
        \<lparr>sg_grid_size = 2, sg_hunt_mode = True, sg_shots = {(0, 0), (1, 1)}, sg_targets = []\<rparr> 1
       = Inr ((1, 0),
           \<lparr>sg_grid_size = 2, sg_hunt_mode = True, sg_shots = {(1, 0), (0, 0), (1, 1)},
            sg_targets = []\<rparr>)"
proof -
  let ?s1 = "sg_init 2"
  let ?s2 = "\<lparr>sg_grid_size = 2, sg_hunt_mode = True, sg_shots = {(0, 0), (1, 1)},
             sg_targets = []\<rparr>"
  have h1: "sg_hunt_mode ?s1" by (simp add: sg_init_def)
  have e1: "\<exists>p. in_bounds (sg_grid_size ?s1) p \<and> (fst p + snd p) mod 2 = 0 \<and> p \<notin> sg_shots ?s1"
    by (rule exI [of _ "(0, 0)"]) (simp add: sg_init_def in_bounds_def)
  have a: "\<exists>c. sg_choose_target ?s1 1 = Inr (c, ?s1\<lparr>sg_shots := insert c (sg_shots ?s1)\<rparr>)
          \<and> (fst c + snd c) mod 2 = 0 \<and> in_bounds (sg_grid_size ?s1) c \<and> c \<notin> sg_shots ?s1"
    using sg_hunting_parity [OF h1, of 1, THEN conjunct1] e1 by (rule mp)
  have h2: "sg_hunt_mode ?s2" by simp
  have n2: "\<not> (\<exists>p. in_bounds (sg_grid_size ?s2) p \<and> (fst p + snd p) mod 2 = 0 \<and> p \<notin> sg_shots ?s2)"
  proof
    assume "\<exists>p. in_bounds (sg_grid_size ?s2) p \<and> (fst p + snd p) mod 2 = 0 \<and> p \<notin> sg_shots ?s2"
    then obtain r c :: int where b: "0 \<le> r" "r < 2" "0 \<le> c" "c < 2"
      and m: "(r + c) mod 2 = 0" and o: "\<not> (r = 0 \<and> c = 0)" "\<not> (r = 1 \<and> c = 1)"
      by (auto simp: in_bounds_def)
    from b m have "(r = 0 \<and> c = 0) \<or> (r = 1 \<and> c = 1)" by presburger
    with o show False by blast
  qed
  have e2: "\<exists>p. in_bounds (sg_grid_size ?s2) p \<and> p \<notin> sg_shots ?s2"
    by (rule exI [of _ "(0, 1)"]) (simp add: in_bounds_def)
  have al: "all_choices (sg_grid_size ?s2) (sg_shots ?s2) = [(0, 1), (1, 0)]"
    by (simp add: all_choices_def py_range_def upto.simps)
  have prem: "\<not> (\<exists>p. in_bounds (sg_grid_size ?s2) p \<and> (fst p + snd p) mod 2 = 0 \<and> p \<notin> sg_shots ?s2)
          \<and> (\<exists>p. in_bounds (sg_grid_size ?s2) p \<and> p \<notin> sg_shots ?s2)"
    using n2 e2 by (rule conjI)
  have "\<exists>c. sg_choose_target ?s2 1 = Inr (c, ?s2\<lparr>sg_shots := insert c (sg_shots ?s2)\<rparr>)
          \<and> c = all_choices (sg_grid_size ?s2) (sg_shots ?s2)
                  ! (1 mod length (all_choices (sg_grid_size ?s2) (sg_shots ?s2)))
          \<and> in_bounds (sg_grid_size ?s2) c \<and> c \<notin> sg_shots ?s2"
    using sg_hunting_parity [OF h2, of 1, THEN conjunct2] prem by (rule mp)
  then obtain c where c1: "sg_choose_target ?s2 1 = Inr (c, ?s2\<lparr>sg_shots := insert c (sg_shots ?s2)\<rparr>)"
    and c2: "c = all_choices (sg_grid_size ?s2) (sg_shots ?s2)
                  ! (1 mod length (all_choices (sg_grid_size ?s2) (sg_shots ?s2)))"
    by (elim exE conjE)
  from c2 have "c = (1, 0)" unfolding al by simp
  with c1 have b: "sg_choose_target ?s2 1
       = Inr ((1, 0), \<lparr>sg_grid_size = 2, sg_hunt_mode = True, sg_shots = {(1, 0), (0, 0), (1, 1)},
            sg_targets = []\<rparr>)"
    by simp
  from h1 a b show ?thesis by (intro conjI)
qed

subsection \<open>C5: the phase transition of StrategicGenius\<close>

text \<open>
  Claim C5. \<^verbatim>\<open>StrategicGenius.process_result(coord, True)\<close> clears \<^verbatim>\<open>hunt_mode\<close>
  and appends to the queue, in the order right, left, down, up, those neighbours of
  \<open>coord\<close> that are on the board and not yet targeted; nothing else changes. On a
  fresh instance for a board of size 4, a hit at \<open>(1, 1)\<close> leaves the queue
  \<open>(1, 2), (1, 0), (2, 1), (0, 1)\<close>; the next four calls of \<^verbatim>\<open>choose_target\<close>
  return these four in this order, whatever the draws, and stay in target mode; the
  fifth call sets \<^verbatim>\<open>hunt_mode\<close> again and returns, in the same call, an untargeted
  coordinate of the checkerboard.
\<close>

theorem sg_phase_transition:
  "sg_process_result s coord True
     = s\<lparr>sg_hunt_mode := False,
         sg_targets := sg_targets s @
           filter (\<lambda>n. in_bounds (sg_grid_size s) n \<and> n \<notin> sg_shots s)
             [(fst coord, snd coord + 1), (fst coord, snd coord - 1),
              (fst coord + 1, snd coord), (fst coord - 1, snd coord)]\<rparr>
   \<and> sg_process_result (sg_init 4) (1, 1) True
       = \<lparr>sg_grid_size = 4, sg_hunt_mode = False, sg_shots = {},
          sg_targets = [(1, 2), (1, 0), (2, 1), (0, 1)]\<rparr>
   \<and> run (StrategicGenius (sg_process_result (sg_init 4) (1, 1) True))
         [Choose d1, Choose d2, Choose d3, Choose d4]
       = Inr ([(1, 2), (1, 0), (2, 1), (0, 1)],
              StrategicGenius \<lparr>sg_grid_size = 4, sg_hunt_mode = False,
                               sg_shots = {(1, 2), (1, 0), (2, 1), (0, 1)}, sg_targets = []\<rparr>)
   \<and> (\<exists>c. sg_choose_target
              \<lparr>sg_grid_size = 4, sg_hunt_mode = False,
               sg_shots = {(1, 2), (1, 0), (2, 1), (0, 1)}, sg_targets = []\<rparr> d5
            = Inr (c, \<lparr>sg_grid_size = 4, sg_hunt_mode = True,
                       sg_shots = insert c {(1, 2), (1, 0), (2, 1), (0, 1)}, sg_targets = []\<rparr>)
          \<and> (fst c + snd c) mod 2 = 0 \<and> in_bounds 4 c
          \<and> c \<notin> {(1, 2), (1, 0), (2, 1), (0, 1)})"
proof -
  let ?s0 = "\<lparr>sg_grid_size = 4, sg_hunt_mode = False, sg_shots = {},
          sg_targets = [(1, 2), (1, 0), (2, 1), (0, 1)]\<rparr>"
  let ?s4 = "\<lparr>sg_grid_size = 4, sg_hunt_mode = False,
               sg_shots = {(1, 2), (1, 0), (2, 1), (0, 1)}, sg_targets = []\<rparr>"
  let ?s4h = "\<lparr>sg_grid_size = 4, sg_hunt_mode = True,
               sg_shots = {(1, 2), (1, 0), (2, 1), (0, 1)}, sg_targets = []\<rparr>"
  have p2: "sg_process_result (sg_init 4) (1, 1) True = ?s0"
    by (simp add: sg_process_result_hit sg_init_def in_bounds_def)
  have p3: "run (StrategicGenius ?s0) [Choose d1, Choose d2, Choose d3, Choose d4]
       = Inr ([(1, 2), (1, 0), (2, 1), (0, 1)], StrategicGenius ?s4)"
    by (simp add: sg_choose_target.simps Let_def insert_commute)
  have st: "sg_choose_target ?s4 d5 = sg_choose_target ?s4h d5"
    using sg_target_step_empty [of ?s4 d5] by simp
  have "\<exists>c. sg_choose_target ?s4h d5 = Inr (c, ?s4h\<lparr>sg_shots := insert c (sg_shots ?s4h)\<rparr>)
              \<and> (fst c + snd c) mod 2 = 0 \<and> in_bounds (sg_grid_size ?s4h) c \<and> c \<notin> sg_shots ?s4h"
    by (rule sg_hunt_checker [of ?s4h "(0, 0)"]) (simp_all add: in_bounds_def)
  then obtain c where c: "sg_choose_target ?s4h d5 = Inr (c, ?s4h\<lparr>sg_shots := insert c (sg_shots ?s4h)\<rparr>)"
     "(fst c + snd c) mod 2 = 0" "in_bounds (sg_grid_size ?s4h) c" "c \<notin> sg_shots ?s4h"
    by (elim exE conjE)
  have p4: "\<exists>c. sg_choose_target ?s4 d5
            = Inr (c, \<lparr>sg_grid_size = 4, sg_hunt_mode = True,
                       sg_shots = insert c {(1, 2), (1, 0), (2, 1), (0, 1)}, sg_targets = []\<rparr>)
          \<and> (fst c + snd c) mod 2 = 0 \<and> in_bounds 4 c
          \<and> c \<notin> {(1, 2), (1, 0), (2, 1), (0, 1)}"
    by (rule exI [of _ c]) (use c st in \<open>intro conjI; simp\<close>)
  have p3': "run (StrategicGenius (sg_process_result (sg_init 4) (1, 1) True))
         [Choose d1, Choose d2, Choose d3, Choose d4]
       = Inr ([(1, 2), (1, 0), (2, 1), (0, 1)], StrategicGenius ?s4)"
    unfolding p2 by (rule p3)
  from sg_process_result_hit [of s coord] p2 p3' p4 show ?thesis
    by (intro conjI)
qed

subsection \<open>Fleet\<close>

lemma all_sunk_iff: "all_sunk p \<longleftrightarrow> (\<forall>s \<in> set (ships p). is_sunk s)"
  by (simp add: all_sunk_def list_all_iff)

subsection \<open>C7: hits and sinking\<close>

text \<open>
  Claim C7. \<^verbatim>\<open>Ship.check_hit(target)\<close> returns true exactly when \<open>target\<close> is one
  of the ship's positions; then \<open>target\<close> is added to \<^verbatim>\<open>hits\<close>, otherwise the ship
  is unchanged, and size and positions never change. \<^verbatim>\<open>is_sunk\<close> holds exactly when
  the number of hits equals the size, and \<^verbatim>\<open>all_sunk\<close> exactly when every ship of
  the fleet is sunk. For the ship of size 2 at \<open>(0, 0), (0, 1)\<close>: a shot at
  \<open>(0, 0)\<close> hits and does not sink it, a following shot at \<open>(0, 1)\<close> hits and
  sinks it, and a following shot at \<open>(1, 1)\<close> misses and leaves the ship as it was.
\<close>

theorem ship_check_hit_is_sunk:
  "fst (check_hit s target) = (target \<in> set (positions s))
   \<and> hits (snd (check_hit s target))
       = (if target \<in> set (positions s) then finsert target (hits s) else hits s)
   \<and> (target \<notin> set (positions s) \<longrightarrow> snd (check_hit s target) = s)
   \<and> positions (snd (check_hit s target)) = positions s
   \<and> ship_size (snd (check_hit s target)) = ship_size s
   \<and> is_sunk s = (int (fcard (hits s)) = ship_size s)
   \<and> all_sunk p = (\<forall>x \<in> set (ships p). is_sunk x)
   \<and> (let s0 = Ship 2 [(0, 0), (0, 1)];
           (b1, s1) = check_hit s0 (0, 0);
           (b2, s2) = check_hit s1 (0, 1);
           (b3, s3) = check_hit s2 (1, 1)
       in b1 \<and> \<not> is_sunk s1 \<and> hits s1 = {|(0, 0)|}
          \<and> b2 \<and> is_sunk s2 \<and> \<not> b3 \<and> s3 = s2 \<and> hits s3 = hits s2)"
proof -
  have a: "fst (check_hit s target) = (target \<in> set (positions s))"
    by (simp add: check_hit_def)
  have b: "hits (snd (check_hit s target))
       = (if target \<in> set (positions s) then finsert target (hits s) else hits s)"
    by (simp add: check_hit_def)
  have c: "target \<notin> set (positions s) \<longrightarrow> snd (check_hit s target) = s"
    by (simp add: check_hit_def)
  have d: "positions (snd (check_hit s target)) = positions s"
    by (simp add: check_hit_def)
  have e: "ship_size (snd (check_hit s target)) = ship_size s"
    by (simp add: check_hit_def)
  have f: "is_sunk s = (int (fcard (hits s)) = ship_size s)"
    by (simp add: is_sunk_def)
  have g: "all_sunk p = (\<forall>x \<in> set (ships p). is_sunk x)"
    by (rule all_sunk_iff)
  have h: "(let s0 = Ship 2 [(0, 0), (0, 1)];
           (b1, s1) = check_hit s0 (0, 0);
           (b2, s2) = check_hit s1 (0, 1);
           (b3, s3) = check_hit s2 (1, 1)
       in b1 \<and> \<not> is_sunk s1 \<and> hits s1 = {|(0, 0)|}
          \<and> b2 \<and> is_sunk s2 \<and> \<not> b3 \<and> s3 = s2 \<and> hits s3 = hits s2)"
    by (simp add: Ship_def check_hit_def is_sunk_def fcard_finsert_if fcard_fempty)
  from a b c d e f g h show ?thesis by (intro conjI)
qed

theorem ship_check_hit_is_sunk_witness:
  "snd (check_hit (Ship 2 [(0, 0), (0, 1)]) (1, 1)) = Ship 2 [(0, 0), (0, 1)]
   \<and> all_sunk \<lparr>grid = Grid 2,
                ships = [\<lparr>ship_size = 1, positions = [(0, 0)], hits = {|(0, 0)|}\<rparr>]\<rparr>
   \<and> \<not> all_sunk \<lparr>grid = Grid 2, ships = [Ship 1 [(0, 0)]]\<rparr>"
proof -
  have n: "(1, 1) \<notin> set (positions (Ship 2 [(0, 0), (0, 1)]))"
    by (simp add: Ship_def)
  have a: "snd (check_hit (Ship 2 [(0, 0), (0, 1)]) (1, 1)) = Ship 2 [(0, 0), (0, 1)]"
    using ship_check_hit_is_sunk [of "Ship 2 [(0, 0), (0, 1)]" "(1, 1)"] n by simp
  let ?p = "\<lparr>grid = Grid 2,
                ships = [\<lparr>ship_size = 1, positions = [(0, 0)], hits = {|(0, 0)|}\<rparr>]\<rparr>"
  have "\<forall>x \<in> set (ships ?p). is_sunk x"
    by (simp add: is_sunk_def fcard_finsert_if fcard_fempty)
  then have b: "all_sunk ?p"
    using ship_check_hit_is_sunk [of "Ship 1 [(0, 0)]" "(0, 0)" ?p] by simp
  let ?q = "\<lparr>grid = Grid 2, ships = [Ship 1 [(0, 0)]]\<rparr>"
  have "\<not> (\<forall>x \<in> set (ships ?q). is_sunk x)"
    by (simp add: is_sunk_def Ship_def fcard_fempty)
  then have c: "\<not> all_sunk ?q"
    using ship_check_hit_is_sunk [of "Ship 1 [(0, 0)]" "(0, 0)" ?q] by simp
  from a b c show ?thesis by (intro conjI)
qed

subsection \<open>C10: check_hit is idempotent\<close>

text \<open>
  Claim C10. Calling \<^verbatim>\<open>check_hit(target)\<close> a second time on the ship the first call
  left returns the same boolean and leaves the ship unchanged; in particular a cell hit
  twice is counted once in \<^verbatim>\<open>hits\<close>, so \<^verbatim>\<open>is_sunk\<close> is the same after one call
  and after two.
\<close>

theorem check_hit_idempotent:
  "fst (check_hit (snd (check_hit s target)) target) = fst (check_hit s target)
   \<and> snd (check_hit (snd (check_hit s target)) target) = snd (check_hit s target)
   \<and> is_sunk (snd (check_hit (snd (check_hit s target)) target))
       = is_sunk (snd (check_hit s target))
   \<and> fcard (hits (snd (check_hit (snd (check_hit s target)) target)))
       = fcard (hits (snd (check_hit s target)))"
  by (simp add: check_hit_def)

subsection \<open>Footprints on the board\<close>

lemma cells_in_bounds_h:
  assumes "in_bounds gs (r, c)"
  shows "list_all (in_bounds gs) (map (\<lambda>i. (r, c + i)) (py_range sz)) \<longleftrightarrow> \<not> c + sz > gs"
proof
  assume a: "list_all (in_bounds gs) (map (\<lambda>i. (r, c + i)) (py_range sz))"
  show "\<not> c + sz > gs"
  proof (cases "1 \<le> sz")
    case True
    then have "sz - 1 \<in> set (py_range sz)" by (simp add: set_py_range)
    with a have "in_bounds gs (r, c + (sz - 1))" by (auto simp: list_all_iff)
    then show ?thesis by (simp add: in_bounds_def)
  next
    case False
    with assms show ?thesis by (simp add: in_bounds_def)
  qed
next
  assume "\<not> c + sz > gs"
  with assms show "list_all (in_bounds gs) (map (\<lambda>i. (r, c + i)) (py_range sz))"
    by (auto simp: list_all_iff in_bounds_def set_py_range)
qed

lemma cells_in_bounds_v:
  assumes "in_bounds gs (r, c)"
  shows "list_all (in_bounds gs) (map (\<lambda>i. (r + i, c)) (py_range sz)) \<longleftrightarrow> \<not> r + sz > gs"
proof
  assume a: "list_all (in_bounds gs) (map (\<lambda>i. (r + i, c)) (py_range sz))"
  show "\<not> r + sz > gs"
  proof (cases "1 \<le> sz")
    case True
    then have "sz - 1 \<in> set (py_range sz)" by (simp add: set_py_range)
    with a have "in_bounds gs (r + (sz - 1), c)" by (auto simp: list_all_iff)
    then show ?thesis by (simp add: in_bounds_def)
  next
    case False
    with assms show ?thesis by (simp add: in_bounds_def)
  qed
next
  assume "\<not> r + sz > gs"
  with assms show "list_all (in_bounds gs) (map (\<lambda>i. (r + i, c)) (py_range sz))"
    by (auto simp: list_all_iff in_bounds_def set_py_range)
qed

subsection \<open>C8: ship footprints\<close>

text \<open>
  Claim C8. A start coordinate is a coordinate of the board, \<open>0 \<le> r, c < grid_size\<close>.
  For every such start \<open>(r, c)\<close>, every length \<open>sz\<close> and every orientation,
  \<^verbatim>\<open>_calc_positions\<close> computes the cells
  \<open>(r, c), (r, c + 1), ..., (r, c + sz - 1)\<close> for \<^verbatim>\<open>'h'\<close> and
  \<open>(r, c), (r + 1, c), ..., (r + sz - 1, c)\<close> otherwise, returns \<^verbatim>\<open>None\<close>
  whenever one of them is off the board, and returns the cells when all of them are on
  it. On a board of size 4, start \<open>(3, 3)\<close> with length 2 horizontally is rejected,
  and start \<open>(0, 0)\<close> with length 3 vertically gives \<open>(0, 0), (1, 0), (2, 0)\<close>.
\<close>

theorem calc_positions_on_board:
  assumes "in_bounds (g_grid_size (grid self)) (r, c)"
  shows "calc_positions self (r, c) sz ''h''
           = (if list_all (in_bounds (g_grid_size (grid self))) (map (\<lambda>i. (r, c + i)) [0..sz - 1])
              then Some (map (\<lambda>i. (r, c + i)) [0..sz - 1]) else None)
       \<and> (orient \<noteq> ''h'' \<longrightarrow> calc_positions self (r, c) sz orient
           = (if list_all (in_bounds (g_grid_size (grid self))) (map (\<lambda>i. (r + i, c)) [0..sz - 1])
              then Some (map (\<lambda>i. (r + i, c)) [0..sz - 1]) else None))
       \<and> calc_positions \<lparr>grid = Grid 4, ships = []\<rparr> (3, 3) 2 ''h'' = None
       \<and> calc_positions \<lparr>grid = Grid 4, ships = []\<rparr> (0, 0) 3 ''v'' = Some [(0, 0), (1, 0), (2, 0)]"
proof -
  note h = cells_in_bounds_h [OF assms, of sz, unfolded py_range_def]
  note v = cells_in_bounds_v [OF assms, of sz, unfolded py_range_def]
  have a: "calc_positions self (r, c) sz ''h''
           = (if list_all (in_bounds (g_grid_size (grid self))) (map (\<lambda>i. (r, c + i)) [0..sz - 1])
              then Some (map (\<lambda>i. (r, c + i)) [0..sz - 1]) else None)"
    unfolding h by (simp add: calc_positions_def py_range_def)
  have b: "orient \<noteq> ''h'' \<longrightarrow> calc_positions self (r, c) sz orient
           = (if list_all (in_bounds (g_grid_size (grid self))) (map (\<lambda>i. (r + i, c)) [0..sz - 1])
              then Some (map (\<lambda>i. (r + i, c)) [0..sz - 1]) else None)"
    unfolding v by (simp add: calc_positions_def py_range_def)
  have c: "calc_positions \<lparr>grid = Grid 4, ships = []\<rparr> (3, 3) 2 ''h'' = None"
    by (simp add: calc_positions_def Grid_def)
  have d: "calc_positions \<lparr>grid = Grid 4, ships = []\<rparr> (0, 0) 3 ''v''
             = Some [(0, 0), (1, 0), (2, 0)]"
    by (simp add: calc_positions_def Grid_def py_range_def upto.simps)
  from a b c d show ?thesis by (intro conjI)
qed

theorem calc_positions_on_board_witness:
  "in_bounds (g_grid_size (grid \<lparr>grid = Grid 4, ships = []\<rparr>)) (1, 2)
   \<and> calc_positions \<lparr>grid = Grid 4, ships = []\<rparr> (1, 2) 2 ''h'' = Some [(1, 2), (1, 3)]
   \<and> calc_positions \<lparr>grid = Grid 4, ships = []\<rparr> (1, 2) 3 ''v'' = Some [(1, 2), (2, 2), (3, 2)]
   \<and> calc_positions \<lparr>grid = Grid 4, ships = []\<rparr> (1, 2) 3 ''h'' = None"
proof -
  let ?p = "\<lparr>grid = Grid 4, ships = []\<rparr>"
  have h: "in_bounds (g_grid_size (grid ?p)) (1, 2)"
    by (simp add: Grid_def in_bounds_def)
  have nv: "''v'' \<noteq> ''h''" by simp
  from calc_positions_on_board [OF h, of 2 "''v''"]
  have a: "calc_positions ?p (1, 2) 2 ''h'' = Some [(1, 2), (1, 3)]"
    by (simp add: Grid_def in_bounds_def upto.simps)
  from calc_positions_on_board [OF h, of 3 "''v''"] nv
  have b: "calc_positions ?p (1, 2) 3 ''v'' = Some [(1, 2), (2, 2), (3, 2)]"
    by (simp add: Grid_def in_bounds_def upto.simps)
  from calc_positions_on_board [OF h, of 3 "''v''"]
  have c: "calc_positions ?p (1, 2) 3 ''h'' = None"
    by (simp add: Grid_def in_bounds_def upto.simps)
  from h a b c show ?thesis by (intro conjI)
qed

subsection \<open>Attack resolution\<close>

lemma any_check_hit_fst:
  "fst (any_check_hit ss target) = (\<exists>s \<in> set ss. target \<in> set (positions s))"
  by (induction ss) (auto simp: check_hit_def split: prod.splits)

lemma any_check_hit_miss:
  "\<not> fst (any_check_hit ss target) \<Longrightarrow> snd (any_check_hit ss target) = ss"
  by (induction ss) (auto simp: check_hit_def split: prod.splits if_splits)

lemma player_attack_already:
  assumes "cells (grid (computer g)) tgt = Some v" and "v \<noteq> CHR '' ''"
  shows "player_attack g move tgt
           = Inr (Continue (g\<lparr>reports := reports g @ [''You already fired at '' @ move @ ''!'']\<rparr>))"
  using assms by (simp add: player_attack_def)

lemma player_attack_fresh:
  assumes "cells (grid (computer g)) tgt = Some (CHR '' '')"
  shows "\<exists>g'. player_attack g move tgt = Inr (Proceed g')
           \<and> cells (grid (computer g'))
               = (cells (grid (computer g)))
                   (tgt \<mapsto> (if \<exists>s \<in> set (ships (computer g)). tgt \<in> set (positions s)
                            then CHR ''X'' else CHR ''O''))
           \<and> ships (computer g') = snd (any_check_hit (ships (computer g)) tgt)
           \<and> player g' = player g \<and> pc_ctrl g' = pc_ctrl g"
proof -
  obtain hit ships1 where a: "any_check_hit (ships (computer g)) tgt = (hit, ships1)"
    by (cases "any_check_hit (ships (computer g)) tgt")
  have hit: "hit = (\<exists>s \<in> set (ships (computer g)). tgt \<in> set (positions s))"
    using any_check_hit_fst [of "ships (computer g)" tgt] a by simp
  let ?g' = "g\<lparr>computer := (computer g)\<lparr>ships := ships1,
                                         grid := update (grid (computer g)) tgt hit\<rparr>,
               reports := reports g @
                 [''You fire at '' @ move @ '': '' @ (if hit then ''Hit'' else ''Miss'')]\<rparr>"
  have r: "player_attack g move tgt = Inr (Proceed ?g')"
    using assms a by (simp add: player_attack_def)
  have c: "cells (grid (computer ?g'))
               = (cells (grid (computer g)))
                   (tgt \<mapsto> (if \<exists>s \<in> set (ships (computer g)). tgt \<in> set (positions s)
                            then CHR ''X'' else CHR ''O''))"
    unfolding hit [symmetric] by (simp add: update_def)
  have s: "ships (computer ?g') = snd (any_check_hit (ships (computer g)) tgt)"
    using a by simp
  have p: "player ?g' = player g \<and> pc_ctrl ?g' = pc_ctrl g" by simp
  show ?thesis
    by (rule exI [of _ ?g']) (use r c s p in \<open>intro conjI; simp\<close>)
qed

lemma map_of_const:
  "map_of (map (\<lambda>p. (p, c)) xs) p = (if p \<in> set xs then Some c else None)"
  by (induction xs) auto

lemma Grid_cells: "cells (Grid gs) p = (if in_bounds gs p then Some (CHR '' '') else None)"
proof -
  have "p \<in> set (List.product (py_range gs) (py_range gs)) \<longleftrightarrow> in_bounds gs p"
    unfolding board_set [symmetric] by simp
  then show ?thesis
    by (simp add: Grid_def map_of_const del: set_product)
qed

lemma ai_attack_fresh_cell:
  assumes inv: "\<forall>p v. cells (grid (player g)) p = Some v \<and> v \<noteq> CHR '' '' \<longrightarrow> p \<in> shots (pc_ctrl g)"
      and a: "ai_attack g d rnd = Inr (t, h, g2)"
  shows "\<not> (\<exists>v. cells (grid (player g)) t = Some v \<and> v \<noteq> CHR '' '')"
    and "cells (grid (player g2)) = (cells (grid (player g)))(t \<mapsto> (if h then CHR ''X'' else CHR ''O''))"
    and "\<forall>p v. cells (grid (player g2)) p = Some v \<and> v \<noteq> CHR '' '' \<longrightarrow> p \<in> shots (pc_ctrl g2)"
    and "computer g2 = computer g"
proof -
  from a obtain ctrl1 where c: "choose_target (pc_ctrl g) d = Inr (t, ctrl1)"
    by (auto simp: ai_attack_def split: sum.splits prod.splits)
  obtain hit ships1 where ac: "any_check_hit (ships (player g)) t = (hit, ships1)"
    by (cases "any_check_hit (ships (player g)) t")
  from a c ac have h: "h = hit"
    and g2: "g2 = g\<lparr>player := (player g)\<lparr>ships := ships1,
                                          grid := update (grid (player g)) t hit\<rparr>,
                   pc_ctrl := process_result ctrl1 t hit rnd\<rparr>"
    by (auto simp: ai_attack_def)
  note props = choose_target_Inr [OF c]
  show "\<not> (\<exists>v. cells (grid (player g)) t = Some v \<and> v \<noteq> CHR '' '')"
  proof
    assume "\<exists>v. cells (grid (player g)) t = Some v \<and> v \<noteq> CHR '' ''"
    then obtain v where "cells (grid (player g)) t = Some v \<and> v \<noteq> CHR '' ''" ..
    with inv have "t \<in> shots (pc_ctrl g)" by (elim allE impE) 
    with props(1) show False by (rule notE)
  qed
  show cells2: "cells (grid (player g2)) = (cells (grid (player g)))(t \<mapsto> (if h then CHR ''X'' else CHR ''O''))"
    unfolding g2 h by (simp add: update_def)
  have sh: "shots (pc_ctrl g2) = insert t (shots (pc_ctrl g))"
    unfolding g2 by (simp add: process_result_props(1) props(2))
  show "\<forall>p v. cells (grid (player g2)) p = Some v \<and> v \<noteq> CHR '' '' \<longrightarrow> p \<in> shots (pc_ctrl g2)"
  proof (intro allI impI)
    fix p v
    assume pv: "cells (grid (player g2)) p = Some v \<and> v \<noteq> CHR '' ''"
    show "p \<in> shots (pc_ctrl g2)"
    proof (cases "p = t")
      case True
      then show ?thesis unfolding sh by simp
    next
      case False
      with pv have "cells (grid (player g)) p = Some v \<and> v \<noteq> CHR '' ''"
        unfolding cells2 by simp
      with inv have "p \<in> shots (pc_ctrl g)" by (elim allE impE)
      then show ?thesis unfolding sh by simp
    qed
  qed
  show "computer g2 = computer g"
    unfolding g2 by simp
qed

subsection \<open>C9: attacking a cell twice\<close>

text \<open>
  Claim C9. The player's attack at a cell of the computer's board that is already
  marked hit or miss does not raise and changes neither the computer's fleet nor its
  board (only a report is added, and the loop asks again). At a cell still blank the
  attack marks it: hit if some ship of the fleet has the cell among its positions,
  miss otherwise. The computer's attack has no such test; its target comes from
  \<^verbatim>\<open>choose_target\<close>, and as long as every marked cell of the player's board is in
  the strategy's targeted set (which the attack preserves), the cell it marks was not
  marked before.
\<close>

theorem attack_resolution_guard:
  "(cells (grid (computer g)) tgt = Some v \<and> v \<noteq> CHR '' '' \<longrightarrow>
      (\<exists>g1. player_attack g move tgt = Inr (Continue g1)
            \<and> computer g1 = computer g \<and> player g1 = player g \<and> pc_ctrl g1 = pc_ctrl g))
   \<and> (cells (grid (computer g)) tgt = Some (CHR '' '') \<longrightarrow>
      (\<exists>g1. player_attack g move tgt = Inr (Proceed g1)
            \<and> cells (grid (computer g1))
                = (cells (grid (computer g)))
                    (tgt \<mapsto> (if \<exists>s \<in> set (ships (computer g)). tgt \<in> set (positions s)
                             then CHR ''X'' else CHR ''O''))))
   \<and> ((\<forall>p w. cells (grid (player g)) p = Some w \<and> w \<noteq> CHR '' '' \<longrightarrow> p \<in> shots (pc_ctrl g))
        \<and> ai_attack g d rnd = Inr (t, h, g2) \<longrightarrow>
        \<not> (\<exists>w. cells (grid (player g)) t = Some w \<and> w \<noteq> CHR '' '')
        \<and> cells (grid (player g2))
            = (cells (grid (player g)))(t \<mapsto> (if h then CHR ''X'' else CHR ''O''))
        \<and> (\<forall>p w. cells (grid (player g2)) p = Some w \<and> w \<noteq> CHR '' ''
                   \<longrightarrow> p \<in> shots (pc_ctrl g2)))"
proof (intro conjI impI)
  assume a: "cells (grid (computer g)) tgt = Some v \<and> v \<noteq> CHR '' ''"
  let ?g1 = "g\<lparr>reports := reports g @ [''You already fired at '' @ move @ ''!'']\<rparr>"
  from a have a1: "cells (grid (computer g)) tgt = Some v" by (rule conjunct1)
  from a have a2: "v \<noteq> CHR '' ''" by (rule conjunct2)
  have "player_attack g move tgt = Inr (Continue ?g1)"
    by (rule player_attack_already [OF a1 a2])
  then show "\<exists>g1. player_attack g move tgt = Inr (Continue g1)
            \<and> computer g1 = computer g \<and> player g1 = player g \<and> pc_ctrl g1 = pc_ctrl g"
    by (intro exI [of _ ?g1]) simp
next
  assume "cells (grid (computer g)) tgt = Some (CHR '' '')"
  from player_attack_fresh [OF this, of move] obtain g1 where
    "player_attack g move tgt = Inr (Proceed g1)"
    "cells (grid (computer g1))
                = (cells (grid (computer g)))
                    (tgt \<mapsto> (if \<exists>s \<in> set (ships (computer g)). tgt \<in> set (positions s)
                             then CHR ''X'' else CHR ''O''))"
    by (elim exE conjE)
  then show "\<exists>g1. player_attack g move tgt = Inr (Proceed g1)
            \<and> cells (grid (computer g1))
                = (cells (grid (computer g)))
                    (tgt \<mapsto> (if \<exists>s \<in> set (ships (computer g)). tgt \<in> set (positions s)
                             then CHR ''X'' else CHR ''O''))"
    by (intro exI [of _ g1] conjI)
next
  assume a: "(\<forall>p w. cells (grid (player g)) p = Some w \<and> w \<noteq> CHR '' '' \<longrightarrow> p \<in> shots (pc_ctrl g))
        \<and> ai_attack g d rnd = Inr (t, h, g2)"
  then have inv: "\<forall>p w. cells (grid (player g)) p = Some w \<and> w \<noteq> CHR '' '' \<longrightarrow> p \<in> shots (pc_ctrl g)"
    and r: "ai_attack g d rnd = Inr (t, h, g2)"
    by (rule conjunct1) (use a in \<open>rule conjunct2\<close>)
  show "\<not> (\<exists>w. cells (grid (player g)) t = Some w \<and> w \<noteq> CHR '' '')"
    by (rule ai_attack_fresh_cell(1) [OF inv r])
  show "cells (grid (player g2))
            = (cells (grid (player g)))(t \<mapsto> (if h then CHR ''X'' else CHR ''O''))"
    by (rule ai_attack_fresh_cell(2) [OF inv r])
  show "\<forall>p w. cells (grid (player g2)) p = Some w \<and> w \<noteq> CHR '' ''
                   \<longrightarrow> p \<in> shots (pc_ctrl g2)"
    by (rule ai_attack_fresh_cell(3) [OF inv r])
qed

theorem attack_resolution_guard_witness:
  "(let g = \<lparr>player = \<lparr>grid = Grid 2, ships = [Ship 1 [(0, 0)]]\<rparr>,
             computer = \<lparr>grid = update (Grid 2) (0, 0) True,
                         ships = [\<lparr>ship_size = 1, positions = [(0, 0)], hits = {|(0, 0)|}\<rparr>]\<rparr>,
             pc_ctrl = RandomShooter (rs_init 2), gm_grid_size = 2, reports = []\<rparr>
    in (\<exists>g1. player_attack g ''A1'' (0, 0) = Inr (Continue g1) \<and> computer g1 = computer g)
       \<and> (\<exists>g1. player_attack g ''A2'' (0, 1) = Inr (Proceed g1)
                \<and> cells (grid (computer g1)) (0, 1) = Some (CHR ''O''))
       \<and> (\<exists>g2. ai_attack g 1 (\<lambda>n. 0) = Inr ((0, 1), False, g2)
                \<and> cells (grid (player g2)) (0, 1) = Some (CHR ''O''))
       \<and> \<not> (\<exists>w. cells (grid (player g)) (0, 1) = Some w \<and> w \<noteq> CHR '' ''))"
proof -
  let ?g = "\<lparr>player = \<lparr>grid = Grid 2, ships = [Ship 1 [(0, 0)]]\<rparr>,
             computer = \<lparr>grid = update (Grid 2) (0, 0) True,
                         ships = [\<lparr>ship_size = 1, positions = [(0, 0)], hits = {|(0, 0)|}\<rparr>]\<rparr>,
             pc_ctrl = RandomShooter (rs_init 2), gm_grid_size = 2, reports = []\<rparr>"
  have c1: "cells (grid (computer ?g)) (0, 0) = Some (CHR ''X'') \<and> CHR ''X'' \<noteq> CHR '' ''"
    by (simp add: update_def)
  have a: "\<exists>g1. player_attack ?g ''A1'' (0, 0) = Inr (Continue g1)
            \<and> computer g1 = computer ?g \<and> player g1 = player ?g \<and> pc_ctrl g1 = pc_ctrl ?g"
    using attack_resolution_guard [of ?g "(0, 0)" "CHR ''X''" "''A1''", THEN conjunct1] c1
    by (rule mp)
  then obtain g1 where "player_attack ?g ''A1'' (0, 0) = Inr (Continue g1)"
    "computer g1 = computer ?g"
    by (elim exE conjE)
  then have a': "\<exists>g1. player_attack ?g ''A1'' (0, 0) = Inr (Continue g1) \<and> computer g1 = computer ?g"
    by (intro exI [of _ g1] conjI)
  have c2: "cells (grid (computer ?g)) (0, 1) = Some (CHR '' '')"
    by (simp add: update_def Grid_cells in_bounds_def)
  have "\<exists>g1. player_attack ?g ''A2'' (0, 1) = Inr (Proceed g1)
            \<and> cells (grid (computer g1))
                = (cells (grid (computer ?g)))
                    ((0, 1) \<mapsto> (if \<exists>s \<in> set (ships (computer ?g)). (0, 1) \<in> set (positions s)
                             then CHR ''X'' else CHR ''O''))"
    using attack_resolution_guard [of ?g "(0, 1)" "CHR ''X''" "''A2''", THEN conjunct2, THEN conjunct1] c2
    by (rule mp)
  then obtain g1' where p: "player_attack ?g ''A2'' (0, 1) = Inr (Proceed g1')"
    and q: "cells (grid (computer g1'))
                = (cells (grid (computer ?g)))
                    ((0, 1) \<mapsto> (if \<exists>s \<in> set (ships (computer ?g)). (0, 1) \<in> set (positions s)
                             then CHR ''X'' else CHR ''O''))"
    by (elim exE conjE)
  from q have "cells (grid (computer g1')) (0, 1) = Some (CHR ''O'')"
    by simp
  with p have b: "\<exists>g1. player_attack ?g ''A2'' (0, 1) = Inr (Proceed g1)
                \<and> cells (grid (computer g1)) (0, 1) = Some (CHR ''O'')"
    by (intro exI [of _ g1'] conjI)
  have inv: "\<forall>p w. cells (grid (player ?g)) p = Some w \<and> w \<noteq> CHR '' '' \<longrightarrow> p \<in> shots (pc_ctrl ?g)"
    by (simp add: Grid_cells)
  have "\<exists>g2. ai_attack ?g 1 (\<lambda>n. 0) = Inr ((0, 1), False, g2)"
    by (simp add: ai_attack_def rs_init_def rs_choose_target_def all_choices_def py_range_def
          upto.simps random_choice_def Ship_def check_hit_def)
  then obtain g2 where r: "ai_attack ?g 1 (\<lambda>n. 0) = Inr ((0, 1), False, g2)" ..
  from inv r have prem: "(\<forall>p w. cells (grid (player ?g)) p = Some w \<and> w \<noteq> CHR '' '' \<longrightarrow> p \<in> shots (pc_ctrl ?g))
        \<and> ai_attack ?g 1 (\<lambda>n. 0) = Inr ((0, 1), False, g2)"
    by (rule conjI)
  have concl: "\<not> (\<exists>w. cells (grid (player ?g)) (0, 1) = Some w \<and> w \<noteq> CHR '' '')
        \<and> cells (grid (player g2))
            = (cells (grid (player ?g)))((0, 1) \<mapsto> (if False then CHR ''X'' else CHR ''O''))
        \<and> (\<forall>p w. cells (grid (player g2)) p = Some w \<and> w \<noteq> CHR '' ''
                   \<longrightarrow> p \<in> shots (pc_ctrl g2))"
    using attack_resolution_guard [of ?g "(0, 0)" "CHR ''X''" "''A1''" 1 "\<lambda>n. 0" "(0, 1)" False g2,
            THEN conjunct2, THEN conjunct2] prem
    by (rule mp)
  then have d: "\<not> (\<exists>w. cells (grid (player ?g)) (0, 1) = Some w \<and> w \<noteq> CHR '' '')"
    by (rule conjunct1)
  from concl have "cells (grid (player g2))
            = (cells (grid (player ?g)))((0, 1) \<mapsto> (if False then CHR ''X'' else CHR ''O''))"
    by (elim conjE)
  then have "cells (grid (player g2)) (0, 1) = Some (CHR ''O'')" by simp
  with r have c: "\<exists>g2. ai_attack ?g 1 (\<lambda>n. 0) = Inr ((0, 1), False, g2)
                \<and> cells (grid (player g2)) (0, 1) = Some (CHR ''O'')"
    by (intro exI [of _ g2] conjI)
  from a' b c d show ?thesis
    unfolding Let_def by (intro conjI)
qed

end
